theory Spec2Isabelle
  imports Main "HOL-Library.Word" "HOL-Library.Sublist"
begin

unbundle bit_operations_syntax

section \<open>Data model of the out-of-order core\<close>

type_synonym u8 = "8 word"
type_synonym u16 = "16 word"
type_synonym u32 = "32 word"

text \<open>
  The C++ sources of the four phases (\<open>Core::issue\<close>, \<open>Core::execute\<close>,
  \<open>Core::writeback\<close>, \<open>Core::commit\<close>) use the classes \<open>Instr\<close>,
  \<open>ReorderBuffer\<close>, \<open>ReservationStation\<close>, the register alias table, the
  common data bus and the functional units through their member functions only; the
  declarations of these classes are not part of the sources at hand. Each of them is
  introduced below under a comment that says where its behaviour comes from.
\<close>

text \<open>
  Modelled from the spec: the instruction record (class \<open>Instr\<close>, missing). The spec
  lists source register identifiers, a destination register identifier, flags saying
  whether each is used, whether the instruction terminates the program, and the
  functional-unit category. The accessors the phases call are \<open>getRs1\<close>,
  \<open>getRs2\<close>, \<open>getRd\<close>, \<open>getExeFlags\<close> and \<open>getFUType\<close>.
\<close>

record Instr =
  getRs1 :: nat
  getRs2 :: nat
  getRd :: nat
  use_rs1 :: bool
  use_rs2 :: bool
  use_rd :: bool
  is_exit :: bool
  getFUType :: nat

text \<open>
  \<open>std::vector::at\<close> throws \<open>std::out_of_range\<close>; a failed \<open>assert\<close> aborts.
  Both end the simulation and are values of the error type.
\<close>

datatype error = OutOfRange | AssertionFailed

text \<open>An exception leaves the phase at once: the rest of the phase runs on a value only.\<close>

definition bind_error :: "error + 'a \<Rightarrow> ('a \<Rightarrow> error + 'b) \<Rightarrow> error + 'b" where
  "bind_error r f = (case r of Inl e \<Rightarrow> Inl e | Inr v \<Rightarrow> f v)"

text \<open>
  Modelled from the spec: the reorder buffer entry (owning instruction, ready flag,
  result value). The phases read the members \<open>instr\<close>, \<open>ready\<close> and \<open>result\<close>.
\<close>

record ROB_entry =
  rob_instr :: Instr
  ready :: bool
  result :: u32

text \<open>
  Modelled from the spec: the reorder buffer (class missing), "a circular log with
  head/tail", "an arena with two cursors over a fixed-capacity array of slots, indexed
  by integer position".
\<close>

record ReorderBuffer =
  rob_store :: "ROB_entry list"
  rob_head :: nat
  rob_tail :: nat
  rob_count :: nat

definition ROB_size :: "ReorderBuffer \<Rightarrow> nat" where
  "ROB_size rob = length (rob_store rob)"

definition ROB_empty :: "ReorderBuffer \<Rightarrow> bool" where
  "ROB_empty rob = (rob_count rob = 0)"

definition ROB_full :: "ReorderBuffer \<Rightarrow> bool" where
  "ROB_full rob = (rob_count rob = ROB_size rob)"

definition ROB_head_index :: "ReorderBuffer \<Rightarrow> int" where
  "ROB_head_index rob = int (rob_head rob)"

definition ROB_get_entry :: "ReorderBuffer \<Rightarrow> int \<Rightarrow> ROB_entry" where
  "ROB_get_entry rob i = rob_store rob ! nat i"

text \<open>
  Modelled from the spec: "a new reorder-buffer slot is appended (tail of the circular
  log) holding the instruction, ready = false". The caller tests the returned index
  for \<open>< 0\<close>, so a failed allocation returns \<open>-1\<close>; it fails when the buffer is full.
\<close>

definition ROB_allocate :: "Instr \<Rightarrow> ReorderBuffer \<Rightarrow> int \<times> ReorderBuffer" where
  "ROB_allocate instr rob =
     (if ROB_full rob then (- 1, rob)
      else (int (rob_tail rob),
        rob\<lparr>rob_store := (rob_store rob)[rob_tail rob :=
                 \<lparr>rob_instr = instr, ready = False, result = 0\<rparr>],
             rob_tail := (rob_tail rob + 1) mod ROB_size rob,
             rob_count := rob_count rob + 1\<rparr>))"

text \<open>Modelled from the spec: "pop the head slot, advancing the buffer".\<close>

definition ROB_pop :: "ReorderBuffer \<Rightarrow> ReorderBuffer" where
  "ROB_pop rob =
     rob\<lparr>rob_head := (rob_head rob + 1) mod ROB_size rob,
         rob_count := rob_count rob - 1\<rparr>"

text \<open>
  Modelled from the spec: the common data bus record (result value, destination
  reorder-buffer slot, source reservation-station slot).
\<close>

record CDB_data =
  cdb_result :: u32
  cdb_rob_index :: int
  cdb_rs_index :: int

text \<open>
  Modelled from the spec: "mark the destination reorder-buffer slot ready with the
  broadcast result".
\<close>

definition ROB_update_cdb :: "CDB_data \<Rightarrow> ReorderBuffer \<Rightarrow> ReorderBuffer" where
  "ROB_update_cdb d rob =
     (let i = nat (cdb_rob_index d)
      in rob\<lparr>rob_store := (rob_store rob)[i :=
               (rob_store rob ! i)\<lparr>ready := True, result := cdb_result d\<rparr>]\<rparr>)"

text \<open>
  Modelled from the spec: the reservation station entry. \<open>Core::issue\<close> passes a
  reservation-station id per operand where \<open>-1\<close> "indicates data is already
  available"; \<open>Core::execute\<close> reads \<open>valid\<close>, \<open>running\<close>, \<open>instr\<close>,
  \<open>rob_index\<close>, \<open>rs1_data\<close>, \<open>rs2_data\<close> and calls \<open>operands_ready\<close>.
\<close>

record RS_entry =
  valid :: bool
  running :: bool
  rob_index :: int
  rs1_index :: int
  rs2_index :: int
  rs1_data :: u32
  rs2_data :: u32
  rs_instr :: Instr

definition operands_ready :: "RS_entry \<Rightarrow> bool" where
  "operands_ready e = (rs1_index e = - 1 \<and> rs2_index e = - 1)"

text \<open>
  Modelled from the spec: "every valid reservation-station entry with a pending operand
  whose recorded producer matches the broadcast's source reservation-station slot,
  resolving that operand to the broadcast value".
\<close>

definition update_operands :: "CDB_data \<Rightarrow> RS_entry \<Rightarrow> RS_entry" where
  "update_operands d e =
     (let e1 = (if rs1_index e \<noteq> - 1 \<and> rs1_index e = cdb_rs_index d
                then e\<lparr>rs1_index := - 1, rs1_data := cdb_result d\<rparr> else e)
      in if rs2_index e1 \<noteq> - 1 \<and> rs2_index e1 = cdb_rs_index d
         then e1\<lparr>rs2_index := - 1, rs2_data := cdb_result d\<rparr> else e1)"

text \<open>
  Modelled from the spec: the reservation-station set (class missing), a fixed array of
  entries. It is full when every entry is valid; \<open>issue\<close> fills the first free entry
  and returns its index, \<open>-1\<close> when there is none; \<open>release\<close> frees an entry.
\<close>

type_synonym ReservationStation = "RS_entry list"

definition RS_full :: "ReservationStation \<Rightarrow> bool" where
  "RS_full rs = list_all valid rs"

fun RS_free_slot :: "ReservationStation \<Rightarrow> nat option" where
  "RS_free_slot [] = None"
| "RS_free_slot (e # es) =
     (if \<not> valid e then Some 0 else map_option Suc (RS_free_slot es))"

definition RS_issue ::
  "int \<Rightarrow> int \<Rightarrow> int \<Rightarrow> u32 \<Rightarrow> u32 \<Rightarrow> Instr \<Rightarrow> ReservationStation \<Rightarrow> int \<times> ReservationStation" where
  "RS_issue rob r1 r2 d1 d2 instr rs =
     (case RS_free_slot rs of
        None \<Rightarrow> (- 1, rs)
      | Some k \<Rightarrow> (int k,
          rs[k := \<lparr>valid = True, running = False, rob_index = rob,
                   rs1_index = r1, rs2_index = r2, rs1_data = d1, rs2_data = d2,
                   rs_instr = instr\<rparr>]))"

definition RS_release :: "int \<Rightarrow> ReservationStation \<Rightarrow> ReservationStation" where
  "RS_release i rs =
     (if 0 \<le> i then rs[nat i := (rs ! nat i)\<lparr>valid := False, running := False\<rparr>] else rs)"

text \<open>
  Modelled from the spec: the functional unit (class missing): "busy/idle state, the
  instruction and operands it was dispatched with, and a completion flag that becomes
  true after its modeled latency elapses". The latency and the value an instruction
  computes are outside the scheduling engine and are parameters.
\<close>

record FunctionalUnit =
  fu_busy :: bool
  fu_done :: bool
  fu_instr :: Instr
  fu_rob_index :: int
  fu_rs_index :: int
  fu_rs1_data :: u32
  fu_rs2_data :: u32
  fu_cycles :: nat
  fu_result :: u32

record config =
  latency :: "Instr \<Rightarrow> nat"
  compute :: "Instr \<Rightarrow> u32 \<Rightarrow> u32 \<Rightarrow> u32"
  locked :: "ReservationStation \<Rightarrow> nat \<Rightarrow> bool"

definition FU_issue ::
  "config \<Rightarrow> Instr \<Rightarrow> int \<Rightarrow> int \<Rightarrow> u32 \<Rightarrow> u32 \<Rightarrow> FunctionalUnit \<Rightarrow> FunctionalUnit" where
  "FU_issue cfg instr rob rs d1 d2 fu =
     fu\<lparr>fu_busy := True, fu_done := False, fu_instr := instr, fu_rob_index := rob,
        fu_rs_index := rs, fu_rs1_data := d1, fu_rs2_data := d2,
        fu_cycles := latency cfg instr\<rparr>"

definition FU_execute :: "config \<Rightarrow> FunctionalUnit \<Rightarrow> FunctionalUnit" where
  "FU_execute cfg fu =
     (if fu_busy fu \<and> \<not> fu_done fu then
        (if fu_cycles fu \<le> 1
         then fu\<lparr>fu_done := True, fu_cycles := 0,
                 fu_result := compute cfg (fu_instr fu) (fu_rs1_data fu) (fu_rs2_data fu)\<rparr>
         else fu\<lparr>fu_cycles := fu_cycles fu - 1\<rparr>)
      else fu)"

definition FU_get_output :: "FunctionalUnit \<Rightarrow> CDB_data" where
  "FU_get_output fu =
     \<lparr>cdb_result = fu_result fu, cdb_rob_index = fu_rob_index fu,
      cdb_rs_index = fu_rs_index fu\<rparr>"

definition FU_clear :: "FunctionalUnit \<Rightarrow> FunctionalUnit" where
  "FU_clear fu = fu\<lparr>fu_busy := False, fu_done := False\<rparr>"

text \<open>
  Modelled from the spec: the register alias table (class missing), per architectural
  register "absent (register file is authoritative) or present, holding the
  reorder-buffer slot index".
\<close>

type_synonym RegisterAliasTable = "nat \<Rightarrow> int option"

definition RAT_exists :: "RegisterAliasTable \<Rightarrow> nat \<Rightarrow> bool" where
  "RAT_exists rat r = (rat r \<noteq> None)"

definition RAT_get :: "RegisterAliasTable \<Rightarrow> nat \<Rightarrow> int" where
  "RAT_get rat r = (case rat r of None \<Rightarrow> - 1 | Some i \<Rightarrow> i)"

definition RAT_set :: "RegisterAliasTable \<Rightarrow> nat \<Rightarrow> int \<Rightarrow> RegisterAliasTable" where
  "RAT_set rat r i = rat(r \<mapsto> i)"

definition RAT_clear :: "RegisterAliasTable \<Rightarrow> nat \<Rightarrow> RegisterAliasTable" where
  "RAT_clear rat r = rat(r := None)"

text \<open>
  The debug trace of the core: \<open>Core::issue\<close> prints "Issue: instr" when an
  instruction has been issued and \<open>Core::commit\<close> prints "Commit: instr" when one
  retires. The printed lines are kept as a log.
\<close>

datatype event = Issue Instr | Commit Instr

text \<open>
  The state of the core: the members the four phases read and write. The issue queue
  is the front end's hand-off (\<open>empty\<close>, \<open>data\<close>, \<open>pop\<close>); the common data bus
  holds one record or is empty.
\<close>

record core =
  issue_queue :: "Instr list"
  reg_file :: "u32 list"
  RAT :: RegisterAliasTable
  ROB :: ReorderBuffer
  RST :: "int list"
  RS :: ReservationStation
  FUs :: "FunctionalUnit list"
  CDB :: "CDB_data option"
  instrs :: nat
  fetched_instrs :: nat
  exited :: bool
  trace :: "event list"

section \<open>Issue\<close>

text \<open>
  The operand lookup that \<open>Core::issue\<close> writes out twice, once for \<open>rs1\<close> and
  once for \<open>rs2\<close>. The result is the pair of locals \<open>(rsN_data, rsN_rsid)\<close>, which
  start as \<open>(0, -1)\<close>.
\<close>

definition get_operand :: "core \<Rightarrow> bool \<Rightarrow> nat \<Rightarrow> error + (u32 \<times> int)" where
  "get_operand s used r =
     (if used then
        (if \<not> RAT_exists (RAT s) r then
           (if r < length (reg_file s) then Inr (reg_file s ! r, - 1) else Inl OutOfRange)
         else
           (let rob_idx = RAT_get (RAT s) r;
                rob_entry = ROB_get_entry (ROB s) rob_idx
            in if ready rob_entry then Inr (result rob_entry, - 1)
               else Inr (0, RST s ! nat rob_idx)))
      else Inr (0, - 1))"

text \<open>
  \<open>Core::issue\<close>, with the two allocators it calls (\<open>ROB_.allocate\<close> and
  \<open>RS_.issue\<close>) as parameters: each returns the index, negative on failure, and the
  updated structure.
\<close>

definition issue_with ::
  "(Instr \<Rightarrow> ReorderBuffer \<Rightarrow> int \<times> ReorderBuffer) \<Rightarrow>
   (int \<Rightarrow> int \<Rightarrow> int \<Rightarrow> u32 \<Rightarrow> u32 \<Rightarrow> Instr \<Rightarrow> ReservationStation \<Rightarrow> int \<times> ReservationStation) \<Rightarrow>
   core \<Rightarrow> error + core" where
  "issue_with rob_allocate rs_issue s =
     (if issue_queue s = [] then Inr s
      else
        let instr = hd (issue_queue s) in
        if RS_full (RS s) \<or> ROB_full (ROB s) then Inr s
        else
          bind_error (get_operand s (use_rs1 instr) (getRs1 instr)) (\<lambda>(rs1_dat, rs1_rsid).
          bind_error (get_operand s (use_rs2 instr) (getRs2 instr)) (\<lambda>(rs2_dat, rs2_rsid).
          let (rob_Allocation, rob') = rob_allocate instr (ROB s);
              s1 = s\<lparr>ROB := rob'\<rparr>
          in if rob_Allocation < 0 then Inr s1
             else
               let s2 = (if use_rd instr
                         then s1\<lparr>RAT := RAT_set (RAT s1) (getRd instr) rob_Allocation\<rparr>
                         else s1);
                   (rs_idx, rs') = rs_issue rob_Allocation rs1_rsid rs2_rsid
                                     rs1_dat rs2_dat instr (RS s2);
                   s3 = s2\<lparr>RS := rs'\<rparr>
               in if rs_idx < 0 then Inr s3
                  else Inr (s3\<lparr>RST := (RST s3)[nat rob_Allocation := rs_idx],
                               trace := trace s3 @ [Issue instr],
                               issue_queue := tl (issue_queue s3)\<rparr>))))"

definition issue :: "core \<Rightarrow> error + core" where
  "issue = issue_with ROB_allocate RS_issue"

section \<open>Commit\<close>

text \<open>
  \<open>Core::commit\<close>. \<open>reg_file_.at(rd)\<close> throws for a register that does not exist,
  before anything is written; the \<open>assert\<close> compares the commit counter with the
  fetch counter. \<open>ROB_.dump()\<close> prints and changes nothing.
\<close>

definition commit :: "core \<Rightarrow> error + core" where
  "commit s =
     (if ROB_empty (ROB s) then Inr s
      else
        let head_idx = ROB_head_index (ROB s);
            rob_head_entry = ROB_get_entry (ROB s) head_idx
        in if ready rob_head_entry then
             (let instr = rob_instr rob_head_entry in
              bind_error
                (if use_rd instr then
                   (let rd = getRd instr in
                    if rd < length (reg_file s) then
                      Inr (s\<lparr>reg_file := (reg_file s)[rd := result rob_head_entry],
                             RAT := (if RAT_exists (RAT s) rd \<and> RAT_get (RAT s) rd = head_idx
                                     then RAT_clear (RAT s) rd else RAT s)\<rparr>)
                    else Inl OutOfRange)
                 else Inr s)
                (\<lambda>s1.
                  if instrs s1 \<le> fetched_instrs s1 then
                    Inr (s1\<lparr>ROB := ROB_pop (ROB s1),
                            trace := trace s1 @ [Commit instr],
                            instrs := instrs s1 + 1,
                            exited := (exited s1 \<or> is_exit instr)\<rparr>)
                  else Inl AssertionFailed))
           else Inr s)"

section \<open>Execute\<close>

text \<open>
  Modelled from the spec: the common data bus is "a single pending broadcast record or
  empty"; a push stores the record.
\<close>

definition CDB_push :: "CDB_data \<Rightarrow> CDB_data option \<Rightarrow> CDB_data option" where
  "CDB_push d cdb = Some d"

text \<open>
  The second loop of \<open>Core::execute\<close>: the first functional unit that is done has its
  output pushed onto the bus and is cleared; the \<open>break\<close> ends the scan.
\<close>

fun drain_FUs ::
  "FunctionalUnit list \<Rightarrow> CDB_data option \<Rightarrow> FunctionalUnit list \<times> CDB_data option" where
  "drain_FUs [] cdb = ([], cdb)"
| "drain_FUs (fu # fus) cdb =
     (if fu_done fu then (FU_clear fu # fus, CDB_push (FU_get_output fu) cdb)
      else (let (fus', cdb') = drain_FUs fus cdb in (fu # fus', cdb')))"

text \<open>
  The body of the third loop, for one reservation-station index. \<open>FUs_.at\<close> throws
  when the functional-unit type is not an index of the bank.
\<close>

definition schedule_entry ::
  "config \<Rightarrow> nat \<Rightarrow> ReservationStation \<times> FunctionalUnit list \<Rightarrow>
   error + (ReservationStation \<times> FunctionalUnit list)" where
  "schedule_entry cfg rs_idx st =
     (let rs = fst st; fus = snd st; entry = rs ! rs_idx in
      if valid entry \<and> \<not> running entry \<and> operands_ready entry \<and> \<not> locked cfg rs rs_idx then
        (let t = getFUType (rs_instr entry) in
         if t < length fus then
           (if \<not> fu_busy (fus ! t) then
              Inr (rs[rs_idx := entry\<lparr>running := True\<rparr>],
                   fus[t := FU_issue cfg (rs_instr entry) (rob_index entry) (int rs_idx)
                              (rs1_data entry) (rs2_data entry) (fus ! t)])
            else Inr (rs, fus))
         else Inl OutOfRange)
      else Inr (rs, fus))"

fun schedule ::
  "config \<Rightarrow> nat list \<Rightarrow> ReservationStation \<times> FunctionalUnit list \<Rightarrow>
   error + (ReservationStation \<times> FunctionalUnit list)" where
  "schedule cfg [] st = Inr st"
| "schedule cfg (i # is) st = bind_error (schedule_entry cfg i st) (schedule cfg is)"

text \<open>
  \<open>Core::execute\<close>: every unit advances, the first completed unit is drained onto
  the bus, and the stations are scanned in index order for entries to dispatch.
\<close>

definition execute :: "config \<Rightarrow> core \<Rightarrow> error + core" where
  "execute cfg s =
     (let fus1 = map (FU_execute cfg) (FUs s);
          drained = drain_FUs fus1 (CDB s)
      in bind_error (schedule cfg [0..<length (RS s)] (RS s, fst drained))
           (\<lambda>st. Inr (s\<lparr>RS := fst st, FUs := snd st, CDB := snd drained\<rparr>)))"

section \<open>Writeback\<close>

text \<open>
  \<open>Core::writeback\<close>: the loop over the stations updates each valid entry from the
  bus record, then the producing station is released, the reorder-buffer slot is
  marked ready and the bus is emptied.
\<close>

definition writeback :: "core \<Rightarrow> core" where
  "writeback s =
     (case CDB s of
        None \<Rightarrow> s
      | Some cdb_data \<Rightarrow>
          s\<lparr>RS := RS_release (cdb_rs_index cdb_data)
                    (map (\<lambda>entry. if valid entry then update_operands cdb_data entry else entry)
                       (RS s)),
            ROB := ROB_update_cdb cdb_data (ROB s),
            CDB := None\<rparr>)"

section \<open>Runs of the core\<close>

text \<open>
  Modelled from the spec: the front end hands over "zero or one decoded instruction
  record" per cycle; \<open>fetched_instrs_\<close> counts the instructions fetched.
\<close>

definition fetch :: "Instr \<Rightarrow> core \<Rightarrow> core" where
  "fetch instr s =
     s\<lparr>issue_queue := issue_queue s @ [instr], fetched_instrs := fetched_instrs s + 1\<rparr>"

definition nop_instr :: Instr where
  "nop_instr = \<lparr>getRs1 = 0, getRs2 = 0, getRd = 0, use_rs1 = False, use_rs2 = False,
                use_rd = False, is_exit = False, getFUType = 0\<rparr>"

definition idle_FU :: FunctionalUnit where
  "idle_FU = \<lparr>fu_busy = False, fu_done = False, fu_instr = nop_instr, fu_rob_index = - 1,
              fu_rs_index = - 1, fu_rs1_data = 0, fu_rs2_data = 0, fu_cycles = 0,
              fu_result = 0\<rparr>"

definition free_RS_entry :: RS_entry where
  "free_RS_entry = \<lparr>valid = False, running = False, rob_index = - 1, rs1_index = - 1,
                    rs2_index = - 1, rs1_data = 0, rs2_data = 0, rs_instr = nop_instr\<rparr>"

definition empty_ROB :: "nat \<Rightarrow> ReorderBuffer" where
  "empty_ROB n =
     \<lparr>rob_store = replicate n \<lparr>rob_instr = nop_instr, ready = False, result = 0\<rparr>,
      rob_head = 0, rob_tail = 0, rob_count = 0\<rparr>"

text \<open>
  Modelled from the spec: the core after reset, with a reorder buffer of \<open>rob_n\<close>
  slots, \<open>rs_n\<close> reservation stations, \<open>fu_n\<close> functional units and \<open>regs\<close>
  architectural registers, nothing in flight.
\<close>

definition init_core :: "nat \<Rightarrow> nat \<Rightarrow> nat \<Rightarrow> nat \<Rightarrow> core" where
  "init_core rob_n rs_n fu_n regs =
     \<lparr>issue_queue = [], reg_file = replicate regs 0, RAT = (\<lambda>r. None),
      ROB = empty_ROB rob_n, RST = replicate rob_n (- 1),
      RS = replicate rs_n free_RS_entry, FUs = replicate fu_n idle_FU, CDB = None,
      instrs = 0, fetched_instrs = 0, exited = False, trace = []\<rparr>"

text \<open>
  A run of the core is any sequence of fetches and phases; an exception ends it. The
  driver's fixed order of the phases within a cycle is one such sequence.
\<close>

datatype action = Fetch Instr | IssuePhase | ExecutePhase | WritebackPhase | CommitPhase

fun step :: "config \<Rightarrow> action \<Rightarrow> core \<Rightarrow> error + core" where
  "step cfg (Fetch instr) s = Inr (fetch instr s)"
| "step cfg IssuePhase s = issue s"
| "step cfg ExecutePhase s = execute cfg s"
| "step cfg WritebackPhase s = Inr (writeback s)"
| "step cfg CommitPhase s = commit s"

fun run :: "config \<Rightarrow> action list \<Rightarrow> core \<Rightarrow> error + core" where
  "run cfg [] s = Inr s"
| "run cfg (a # as) s = bind_error (step cfg a s) (run cfg as)"

fun issued :: "event list \<Rightarrow> Instr list" where
  "issued [] = []"
| "issued (Issue i # es) = i # issued es"
| "issued (Commit i # es) = issued es"

fun committed :: "event list \<Rightarrow> Instr list" where
  "committed [] = []"
| "committed (Issue i # es) = committed es"
| "committed (Commit i # es) = i # committed es"

text \<open>The slots in flight, oldest first: \<open>rob_count\<close> slots from the head cursor on.\<close>

definition ROB_contents :: "ReorderBuffer \<Rightarrow> ROB_entry list" where
  "ROB_contents rob =
     map (\<lambda>k. rob_store rob ! ((rob_head rob + k) mod ROB_size rob)) [0..<rob_count rob]"

section \<open>The in-order pipeline's register write\<close>

text \<open>\<open>Core::regfile_write\<close> of the five-stage pipeline, on the register file alone.\<close>

definition regfile_write :: "Instr \<Rightarrow> u32 \<Rightarrow> u32 list \<Rightarrow> error + u32 list" where
  "regfile_write instr alu_result rf =
     (if use_rd instr \<and> getRd instr \<noteq> 0 then
        (if getRd instr < length rf then Inr (rf[getRd instr := alu_result])
         else Inl OutOfRange)
      else Inr rf)"

section \<open>Invariants and example inputs\<close>

text \<open>
  The cursors of the reorder buffer are consistent: the count is within the capacity,
  the head cursor is a position of the array, and the tail cursor is \<open>rob_count\<close>
  positions after the head, wrapping around.
\<close>

definition wf_ROB :: "ReorderBuffer \<Rightarrow> bool" where
  "wf_ROB rob =
     (rob_count rob \<le> ROB_size rob \<and>
      (0 < ROB_size rob \<longrightarrow>
         rob_head rob < ROB_size rob \<and>
         rob_tail rob = (rob_head rob + rob_count rob) mod ROB_size rob))"

text \<open>
  The instructions issued so far are those committed so far followed by those in the
  reorder buffer, oldest first.
\<close>

definition fifo_inv :: "core \<Rightarrow> bool" where
  "fifo_inv s =
     (wf_ROB (ROB s) \<and>
      issued (trace s) = committed (trace s) @ map rob_instr (ROB_contents (ROB s)))"

text \<open>
  A configuration with a slow unit 0 (three cycles) and a fast unit 1 (one cycle), and
  two independent instructions, one for each unit.
\<close>

definition demo_cfg :: config where
  "demo_cfg = \<lparr>latency = (\<lambda>i. if getFUType i = 0 then 3 else 1),
               compute = (\<lambda>i a b. a + b), locked = (\<lambda>rs k. False)\<rparr>"

definition instr_A :: Instr where
  "instr_A = \<lparr>getRs1 = 2, getRs2 = 3, getRd = 1, use_rs1 = True, use_rs2 = True,
              use_rd = True, is_exit = False, getFUType = 0\<rparr>"

definition instr_B :: Instr where
  "instr_B = \<lparr>getRs1 = 5, getRs2 = 6, getRd = 4, use_rs1 = True, use_rs2 = True,
              use_rd = True, is_exit = False, getFUType = 1\<rparr>"

text \<open>
  \<open>instr_A\<close> is issued first and completes last: \<open>instr_B\<close> is broadcast and written
  back while \<open>instr_A\<close> is still executing.
\<close>

definition demo_run :: "action list" where
  "demo_run = [Fetch instr_A, Fetch instr_B, IssuePhase, IssuePhase, ExecutePhase,
               ExecutePhase, WritebackPhase, CommitPhase, ExecutePhase, ExecutePhase,
               WritebackPhase, CommitPhase, CommitPhase]"

text \<open>Three instructions for two reservation stations: the third one has to wait.\<close>

definition stall_run :: "action list" where
  "stall_run = [Fetch instr_A, Fetch instr_B, Fetch instr_A, IssuePhase, IssuePhase]"

text \<open>The core after reset with register \<open>k\<close> holding the value \<open>k\<close>.\<close>

definition demo_core :: "nat \<Rightarrow> nat \<Rightarrow> core" where
  "demo_core rob_n rs_n = (init_core rob_n rs_n 2 32)\<lparr>reg_file := map of_nat [0..<32]\<rparr>"

text \<open>
  Two instructions that both write register 7, the older one on the slow unit; the run
  issues both and lets both complete and write back.
\<close>

definition instr_C :: Instr where
  "instr_C = \<lparr>getRs1 = 2, getRs2 = 3, getRd = 7, use_rs1 = True, use_rs2 = True,
              use_rd = True, is_exit = False, getFUType = 0\<rparr>"

definition instr_D :: Instr where
  "instr_D = \<lparr>getRs1 = 5, getRs2 = 6, getRd = 7, use_rs1 = True, use_rs2 = True,
              use_rd = True, is_exit = False, getFUType = 1\<rparr>"

definition waw_run :: "action list" where
  "waw_run = [Fetch instr_C, Fetch instr_D, IssuePhase, IssuePhase, ExecutePhase,
              ExecutePhase, WritebackPhase, ExecutePhase, ExecutePhase, WritebackPhase]"

text \<open>An instruction whose destination is register 0, issued, executed and written back.\<close>

definition instr_Z :: Instr where
  "instr_Z = \<lparr>getRs1 = 2, getRs2 = 3, getRd = 0, use_rs1 = True, use_rs2 = True,
              use_rd = True, is_exit = False, getFUType = 1\<rparr>"

definition x0_run :: "action list" where
  "x0_run = [Fetch instr_Z, IssuePhase, ExecutePhase, ExecutePhase, WritebackPhase]"

text \<open>
  The three-way rule of the spec for a source operand read from register \<open>r\<close>, as a
  relation between the state and the operand descriptor \<open>(idx, dat)\<close> of the station.
  An operand is resolved when its index is \<open>-1\<close> and pending otherwise. Without a
  mapping in the alias table the operand is resolved to the register-file value; with a
  mapping to a ready slot it is resolved to that slot's result; otherwise it is pending,
  with the station that the reverse producer index lists for the mapped slot.
\<close>

definition spec_operand_rule :: "core \<Rightarrow> nat \<Rightarrow> int \<Rightarrow> u32 \<Rightarrow> bool" where
  "spec_operand_rule s r idx dat =
     (case RAT s r of
        None \<Rightarrow> idx = - 1 \<and> dat = reg_file s ! r
      | Some slot \<Rightarrow>
          (if ready (ROB_get_entry (ROB s) slot)
           then idx = - 1 \<and> dat = result (ROB_get_entry (ROB s) slot)
           else idx \<noteq> - 1 \<and> idx = RST s ! nat slot))"

text \<open>
  An instruction that reads register 1, which \<open>instr_A\<close> writes. In the first run it
  is at the head of the queue while \<open>instr_A\<close> has been issued only; in the second,
  \<open>instr_A\<close> has completed and written back, and has not committed.
\<close>

definition instr_E :: Instr where
  "instr_E = \<lparr>getRs1 = 1, getRs2 = 6, getRd = 4, use_rs1 = True, use_rs2 = True,
              use_rd = True, is_exit = False, getFUType = 1\<rparr>"

definition raw_pending_run :: "action list" where
  "raw_pending_run = [Fetch instr_A, Fetch instr_E, IssuePhase]"

definition raw_ready_run :: "action list" where
  "raw_ready_run = [Fetch instr_A, Fetch instr_E, IssuePhase, ExecutePhase, ExecutePhase,
                    ExecutePhase, ExecutePhase, WritebackPhase]"


text \<open>
  \<open>instr_E\<close> waits in a reservation station for the result of \<open>instr_A\<close>; the run
  ends when \<open>instr_A\<close> has completed and its result is on the bus.
\<close>

definition wake_run :: "action list" where
  "wake_run = [Fetch instr_A, Fetch instr_E, IssuePhase, IssuePhase, ExecutePhase,
               ExecutePhase, ExecutePhase, ExecutePhase]"

text \<open>
  A unit that has completed is still busy: it is reset to idle only when its result is
  moved onto the bus.
\<close>

definition FUs_wf :: "FunctionalUnit list \<Rightarrow> bool" where
  "FUs_wf fus = (\<forall>fu\<in>set fus. fu_done fu \<longrightarrow> fu_busy fu)"

text \<open>
  \<open>instr_A\<close> is dispatched to the slow unit two cycles before \<open>instr_B\<close> is
  dispatched to the fast one: both complete at the next execute.
\<close>

definition both_done_run :: "action list" where
  "both_done_run = [Fetch instr_A, IssuePhase, ExecutePhase, ExecutePhase, Fetch instr_B,
                    IssuePhase, ExecutePhase]"

section \<open>Branch predictor\<close>

text \<open>
  \<open>gshare.h\<close> and \<open>gshare.cpp\<close>: \<open>GShare\<close> keeps an 8-bit history register and
  mask, \<open>GSharePlus\<close> 16-bit ones; the counters of both tables are bytes.
\<close>

record BTB_entry_t =
  btb_valid :: bool
  btb_tag :: u32
  btb_target :: u32

record GShare =
  g_BTB :: "BTB_entry_t list"
  g_PHT :: "u8 list"
  g_BHR :: u8
  g_BTB_shift :: u32
  g_BTB_mask :: u32
  g_BHR_mask :: u8

record GSharePlus =
  p_BTB :: "BTB_entry_t list"
  p_PHT :: "u8 list"
  p_BHR :: u16
  p_BTB_shift :: u32
  p_BTB_mask :: u32
  p_BHR_mask :: u16

text \<open>
  The constructors. \<open>1 << BHR_size\<close> is an \<open>int\<close> shift, which is \<open>2 ^ BHR_size\<close>
  for \<open>BHR_size < 31\<close> (beyond that the shift overflows); the table has that many
  counters and the mask is \<open>(1 << BHR_size) - 1\<close> cut to the width of the member.
  \<open>log2ceil\<close> comes from a header that is not among the sources and is a parameter.
\<close>

definition GShare_init :: "(u32 \<Rightarrow> u32) \<Rightarrow> u32 \<Rightarrow> nat \<Rightarrow> GShare" where
  "GShare_init log2ceil BTB_size BHR_size =
     \<lparr>g_BTB = replicate (unat BTB_size) \<lparr>btb_valid = False, btb_tag = 0, btb_target = 0\<rparr>,
      g_PHT = replicate (2 ^ BHR_size) 0,
      g_BHR = 0,
      g_BTB_shift = log2ceil BTB_size,
      g_BTB_mask = BTB_size - 1,
      g_BHR_mask = of_nat (2 ^ BHR_size - 1)\<rparr>"

definition GSharePlus_init :: "(u32 \<Rightarrow> u32) \<Rightarrow> u32 \<Rightarrow> nat \<Rightarrow> GSharePlus" where
  "GSharePlus_init log2ceil BTB_size BHR_size =
     \<lparr>p_BTB = replicate (unat BTB_size) \<lparr>btb_valid = False, btb_tag = 0, btb_target = 0\<rparr>,
      p_PHT = replicate (2 ^ BHR_size) 2,
      p_BHR = 0,
      p_BTB_shift = log2ceil BTB_size,
      p_BTB_mask = BTB_size - 1,
      p_BHR_mask = of_nat (2 ^ BHR_size - 1)\<rparr>"

text \<open>
  The counter update that both \<open>update\<close> functions write out: increment below 3 when
  the branch is taken, decrement above 0 when it is not.
\<close>

definition update_counter :: "u8 list \<Rightarrow> nat \<Rightarrow> bool \<Rightarrow> u8 list" where
  "update_counter pht i taken =
     (if taken then (if pht ! i < 3 then pht[i := pht ! i + 1] else pht)
      else (if pht ! i > 0 then pht[i := pht ! i - 1] else pht))"

text \<open>
  The target-buffer update of a taken branch. Indexing a \<open>std::vector\<close> outside its
  bounds with \<open>[]\<close> is undefined; the model returns \<open>None\<close> there.
\<close>

definition update_BTB :: "BTB_entry_t list \<Rightarrow> u32 \<Rightarrow> u32 \<Rightarrow> u32 \<Rightarrow> u32 \<Rightarrow> BTB_entry_t list option" where
  "update_BTB btb btb_mask btb_shift PC next_PC =
     (let btb_index = unat (drop_bit 2 PC AND btb_mask) in
      if btb_index < length btb
      then Some (btb[btb_index := \<lparr>btb_valid = True,
                                    btb_tag = drop_bit (unat btb_shift) (drop_bit 2 PC),
                                    btb_target = next_PC\<rparr>])
      else None)"

text \<open>
  \<open>GShare::update\<close>. The index expression is computed in 32 bits (the history
  register and the mask are promoted) and stored in a \<open>uint8_t\<close>.
\<close>

definition GShare_update :: "GShare \<Rightarrow> u32 \<Rightarrow> u32 \<Rightarrow> bool \<Rightarrow> GShare option" where
  "GShare_update g PC next_PC taken =
     (let pht_index = (ucast ((drop_bit 2 PC XOR ucast (g_BHR g)) AND ucast (g_BHR_mask g)) :: u8) in
      if unat pht_index < length (g_PHT g) then
        (let g1 = g\<lparr>g_PHT := update_counter (g_PHT g) (unat pht_index) taken,
                     g_BHR := ucast ((push_bit 1 (ucast (g_BHR g) :: u32) OR (if taken then 1 else 0))
                                      AND ucast (g_BHR_mask g))\<rparr>
         in if taken then
              (case update_BTB (g_BTB g1) (g_BTB_mask g1) (g_BTB_shift g1) PC next_PC of
                 None \<Rightarrow> None
               | Some btb \<Rightarrow> Some (g1\<lparr>g_BTB := btb\<rparr>))
            else Some g1)
      else None)"

text \<open>\<open>GSharePlus::update\<close>: the same with a \<open>uint16_t\<close> index and history.\<close>

definition GSharePlus_update :: "GSharePlus \<Rightarrow> u32 \<Rightarrow> u32 \<Rightarrow> bool \<Rightarrow> GSharePlus option" where
  "GSharePlus_update g PC next_PC taken =
     (let pht_index = (ucast ((drop_bit 2 PC XOR ucast (p_BHR g)) AND ucast (p_BHR_mask g)) :: u16) in
      if unat pht_index < length (p_PHT g) then
        (let g1 = g\<lparr>p_PHT := update_counter (p_PHT g) (unat pht_index) taken,
                     p_BHR := ucast ((push_bit 1 (ucast (p_BHR g) :: u32) OR (if taken then 1 else 0))
                                      AND ucast (p_BHR_mask g))\<rparr>
         in if taken then
              (case update_BTB (p_BTB g1) (p_BTB_mask g1) (p_BTB_shift g1) PC next_PC of
                 None \<Rightarrow> None
               | Some btb \<Rightarrow> Some (g1\<lparr>p_BTB := btb\<rparr>))
            else Some g1)
      else None)"

text \<open>A sequence of \<open>update\<close> calls, each with its \<open>PC\<close>, \<open>next_PC\<close> and \<open>taken\<close>.\<close>

fun GShare_updates :: "GShare \<Rightarrow> (u32 \<times> u32 \<times> bool) list \<Rightarrow> GShare option" where
  "GShare_updates g [] = Some g"
| "GShare_updates g ((PC, next_PC, taken) # us) =
     (case GShare_update g PC next_PC taken of
        None \<Rightarrow> None
      | Some g' \<Rightarrow> GShare_updates g' us)"

fun GSharePlus_updates :: "GSharePlus \<Rightarrow> (u32 \<times> u32 \<times> bool) list \<Rightarrow> GSharePlus option" where
  "GSharePlus_updates g [] = Some g"
| "GSharePlus_updates g ((PC, next_PC, taken) # us) =
     (case GSharePlus_update g PC next_PC taken of
        None \<Rightarrow> None
      | Some g' \<Rightarrow> GSharePlus_updates g' us)"

text \<open>
  What every sequence of updates keeps: the table size, a mask below the table size,
  the buffer size and its mask, and counters of at most 3.
\<close>

definition GShare_inv :: "nat \<Rightarrow> u32 \<Rightarrow> GShare \<Rightarrow> bool" where
  "GShare_inv n bs g =
     (length (g_PHT g) = 2 ^ n \<and> unat (g_BHR_mask g) < 2 ^ n \<and>
      length (g_BTB g) = unat bs \<and> g_BTB_mask g = bs - 1 \<and>
      (\<forall>c\<in>set (g_PHT g). c \<le> 3))"

definition GSharePlus_inv :: "nat \<Rightarrow> u32 \<Rightarrow> GSharePlus \<Rightarrow> bool" where
  "GSharePlus_inv n bs g =
     (length (p_PHT g) = 2 ^ n \<and> unat (p_BHR_mask g) < 2 ^ n \<and>
      length (p_BTB g) = unat bs \<and> p_BTB_mask g = bs - 1 \<and>
      (\<forall>c\<in>set (p_PHT g). c \<le> 3))"

section \<open>Consistency of the scheduling structures\<close>

text \<open>The positions of the slots in flight, oldest first.\<close>

definition ROB_positions :: "ReorderBuffer \<Rightarrow> nat list" where
  "ROB_positions rob =
     map (\<lambda>k. (rob_head rob + k) mod ROB_size rob) [0..<rob_count rob]"

text \<open>An operand index is resolved (\<open>-1\<close>) or names a station that is in use.\<close>

definition ref_ok :: "ReservationStation \<Rightarrow> int \<Rightarrow> bool" where
  "ref_ok rs i = (i = - 1 \<or> (0 \<le> i \<and> nat i < length rs \<and> valid (rs ! nat i)))"

definition refs_ok :: "ReservationStation \<Rightarrow> bool" where
  "refs_ok rs = (\<forall>e\<in>set rs. valid e \<longrightarrow> ref_ok rs (rs1_index e) \<and> ref_ok rs (rs2_index e))"

text \<open>
  For a slot in flight that is not ready, the reverse producer index names a station in
  use that produces for this slot.
\<close>

definition producer_ok :: "core \<Rightarrow> bool" where
  "producer_ok s =
     (\<forall>p\<in>set (ROB_positions (ROB s)). \<not> ready (rob_store (ROB s) ! p) \<longrightarrow>
        0 \<le> RST s ! p \<and> nat (RST s ! p) < length (RS s) \<and>
        valid (RS s ! nat (RST s ! p)) \<and> rob_index (RS s ! nat (RST s ! p)) = int p)"

text \<open>
  A mapping of the alias table names a slot in flight whose instruction writes the
  mapped register.
\<close>

definition RAT_ok :: "core \<Rightarrow> bool" where
  "RAT_ok s =
     (\<forall>r v. RAT s r = Some v \<longrightarrow>
        0 \<le> v \<and> nat v \<in> set (ROB_positions (ROB s)) \<and>
        use_rd (rob_instr (rob_store (ROB s) ! nat v)) \<and>
        getRd (rob_instr (rob_store (ROB s) ! nat v)) = r)"

text \<open>
  A busy unit and the bus hold the index of a running station in use, together with the
  slot that station produces for, and no two of them hold the same station.
\<close>

definition holds :: "ReservationStation \<Rightarrow> int \<Rightarrow> int \<Rightarrow> bool" where
  "holds rs k p =
     (0 \<le> k \<and> nat k < length rs \<and> valid (rs ! nat k) \<and> running (rs ! nat k) \<and>
      rob_index (rs ! nat k) = p)"

definition holders_ok ::
  "ReservationStation \<Rightarrow> FunctionalUnit list \<Rightarrow> CDB_data option \<Rightarrow> bool" where
  "holders_ok rs fus cdb =
     (FUs_wf fus \<and>
      (\<forall>fu\<in>set fus. fu_busy fu \<longrightarrow> holds rs (fu_rs_index fu) (fu_rob_index fu)) \<and>
      (\<forall>f<length fus. \<forall>f'<length fus.
         fu_busy (fus ! f) \<and> fu_busy (fus ! f') \<and> fu_rs_index (fus ! f) = fu_rs_index (fus ! f')
           \<longrightarrow> f = f') \<and>
      (\<forall>d. cdb = Some d \<longrightarrow>
         holds rs (cdb_rs_index d) (cdb_rob_index d) \<and>
         (\<forall>fu\<in>set fus. fu_busy fu \<longrightarrow> fu_rs_index fu \<noteq> cdb_rs_index d)))"

definition tomasulo_inv :: "core \<Rightarrow> bool" where
  "tomasulo_inv s =
     (wf_ROB (ROB s) \<and> length (RST s) = ROB_size (ROB s) \<and> refs_ok (RS s) \<and>
      producer_ok s \<and> RAT_ok s \<and> holders_ok (RS s) (FUs s) (CDB s))"

text \<open>Two station arrays that differ in running flags only.\<close>

definition same_but_running :: "ReservationStation \<Rightarrow> ReservationStation \<Rightarrow> bool" where
  "same_but_running rs' rs =
     (length rs' = length rs \<and> (\<forall>j<length rs. \<exists>b. rs' ! j = (rs ! j)\<lparr>running := b\<rparr>))"

section \<open>Progress of completed units\<close>

text \<open>
  A station in use produces for a slot in flight that is not ready, and the reverse
  producer index of that slot names the station.
\<close>

definition stations_ok :: "core \<Rightarrow> bool" where
  "stations_ok s =
     (\<forall>k<length (RS s). valid (RS s ! k) \<longrightarrow>
        0 \<le> rob_index (RS s ! k) \<and>
        nat (rob_index (RS s ! k)) \<in> set (ROB_positions (ROB s)) \<and>
        \<not> ready (rob_store (ROB s) ! nat (rob_index (RS s ! k))) \<and>
        RST s ! nat (rob_index (RS s ! k)) = int k)"

text \<open>
  A bound on the cycles a completed unit can be kept off the bus: the slots in flight
  that are not ready, the free slots of the reorder buffer, the slots older than the
  unit's own slot, and one more while the bus is free.
\<close>

definition pending_slots :: "ReorderBuffer \<Rightarrow> nat" where
  "pending_slots rob =
     length (filter (\<lambda>p. \<not> ready (rob_store rob ! p)) (ROB_positions rob))"

definition older_slots :: "ReorderBuffer \<Rightarrow> nat \<Rightarrow> nat" where
  "older_slots rob p = length (takeWhile (\<lambda>q. q \<noteq> p) (ROB_positions rob))"

definition waiting_bound :: "core \<Rightarrow> nat \<Rightarrow> nat" where
  "waiting_bound s p =
     pending_slots (ROB s) + (ROB_size (ROB s) - rob_count (ROB s)) + older_slots (ROB s) p +
     (if CDB s = None then 1 else 0)"

text \<open>
  Modelled from the spec: "the four phases are driven within one cycle in the order
  commit, writeback, execute, issue". The instructions that the front end hands over
  in the cycle are queued first.
\<close>

definition cycle :: "Instr list \<Rightarrow> action list" where
  "cycle fetched = map Fetch fetched @ [CommitPhase, WritebackPhase, ExecutePhase, IssuePhase]"

section \<open>The reorder buffer is a queue\<close>

lemma tl_map_upt: "tl (map f [0..<n]) = map (\<lambda>k. f (Suc k)) [0..<n - 1]"
proof (cases n)
  case 0
  then show ?thesis by simp
next
  case (Suc m)
  have "[0..<Suc m] = 0 # map Suc [0..<m]"
    by (simp only: map_Suc_upt upt_conv_Cons [of 0 "Suc m"] zero_less_Suc if_True)
  then show ?thesis using Suc by (simp add: comp_def del: upt_Suc)
qed

lemma ROB_contents_pop: "ROB_contents (ROB_pop rob) = tl (ROB_contents rob)"
proof -
  have "\<And>k. ((rob_head rob + 1) mod ROB_size rob + k) mod ROB_size rob =
            (rob_head rob + Suc k) mod ROB_size rob"
    by (simp add: mod_add_left_eq)
  then show ?thesis
    by (simp add: ROB_contents_def ROB_pop_def ROB_size_def tl_map_upt)
qed

lemma mod_add_inj:
  fixes a k c n :: nat
  assumes "k < c" "c < n" "(a + k) mod n = (a + c) mod n"
  shows False
proof -
  have "(a + c) mod n = (a + k) mod n" using assms(3) by simp
  then have "n dvd (a + c) - (a + k)"
    using assms(1) mod_eq_dvd_iff_nat [of "a + k" "a + c" n] by simp
  then have "n dvd c - k" by simp
  moreover have "0 < c - k" "c - k < n" using assms by simp_all
  ultimately show False using nat_dvd_not_less by blast
qed

lemma ROB_contents_allocate:
  assumes "wf_ROB rob" "\<not> ROB_full rob"
  shows "ROB_contents (snd (ROB_allocate instr rob)) =
           ROB_contents rob @ [\<lparr>rob_instr = instr, ready = False, result = 0\<rparr>]"
proof -
  let ?n = "ROB_size rob"
  let ?e = "\<lparr>rob_instr = instr, ready = False, result = 0\<rparr>"
  have lt: "rob_count rob < ?n" using assms by (simp add: wf_ROB_def ROB_full_def)
  then have "0 < ?n" by simp
  then have tail: "rob_tail rob = (rob_head rob + rob_count rob) mod ?n" "rob_tail rob < ?n"
    using assms by (simp_all add: wf_ROB_def)
  have old: "(rob_store rob)[rob_tail rob := ?e] ! ((rob_head rob + k) mod ?n) =
             rob_store rob ! ((rob_head rob + k) mod ?n)" if "k < rob_count rob" for k
  proof -
    have "(rob_head rob + k) mod ?n \<noteq> rob_tail rob"
      using mod_add_inj [OF that lt] tail(1) by metis
    then show ?thesis by simp
  qed
  have new: "(rob_store rob)[rob_tail rob := ?e] ! ((rob_head rob + rob_count rob) mod ?n) = ?e"
    using tail by (simp add: ROB_size_def)
  show ?thesis
    using assms(2) old new
    by (simp add: ROB_contents_def ROB_allocate_def ROB_size_def)
qed

lemma wf_ROB_allocate:
  assumes "wf_ROB rob" "\<not> ROB_full rob"
  shows "wf_ROB (snd (ROB_allocate instr rob))"
  using assms
  by (simp add: wf_ROB_def ROB_allocate_def ROB_full_def ROB_size_def mod_Suc_eq mod_add_left_eq)

lemma wf_ROB_pop:
  assumes "wf_ROB rob" "\<not> ROB_empty rob"
  shows "wf_ROB (ROB_pop rob)"
proof -
  obtain c where c: "rob_count rob = Suc c"
    using assms(2) by (cases "rob_count rob") (simp_all add: ROB_empty_def)
  have "(Suc (rob_head rob) mod ROB_size rob + c) mod ROB_size rob =
        (rob_head rob + Suc c) mod ROB_size rob"
    by (simp add: mod_add_left_eq)
  then show ?thesis
    using assms(1) c by (simp add: wf_ROB_def ROB_pop_def ROB_size_def)
qed

lemma wf_ROB_update_cdb: "wf_ROB (ROB_update_cdb d rob) = wf_ROB rob"
  by (simp add: wf_ROB_def ROB_update_cdb_def ROB_size_def Let_def)

lemma ROB_update_cdb_contents:
  "map rob_instr (ROB_contents (ROB_update_cdb d rob)) = map rob_instr (ROB_contents rob)"
proof -
  have "rob_instr ((rob_store rob)[i := (rob_store rob ! i)\<lparr>ready := True, result := v\<rparr>] ! j) =
        rob_instr (rob_store rob ! j)" for i j v
    by (cases "i = j"; cases "j < length (rob_store rob)"; simp add: list_update_beyond)
  then show ?thesis
    by (simp add: ROB_contents_def ROB_update_cdb_def ROB_size_def Let_def)
qed

lemma issued_append: "issued (xs @ ys) = issued xs @ issued ys"
  by (induction xs rule: issued.induct) simp_all

lemma committed_append: "committed (xs @ ys) = committed xs @ committed ys"
  by (induction xs rule: committed.induct) simp_all

lemma RS_free_slot_None: "(RS_free_slot rs = None) = RS_full rs"
  by (induction rs) (simp_all add: RS_full_def)

lemma RS_free_slot_Some:
  "RS_free_slot rs = Some k \<Longrightarrow> k < length rs \<and> \<not> valid (rs ! k) \<and> (\<forall>j<k. valid (rs ! j))"
proof (induction rs arbitrary: k)
  case Nil
  then show ?case by simp
next
  case (Cons e es)
  show ?case
  proof (cases "valid e")
    case False
    with Cons.prems show ?thesis by simp
  next
    case True
    with Cons.prems obtain k' where k': "RS_free_slot es = Some k'" "k = Suc k'"
      by auto
    from Cons.IH [OF k'(1)] True k'(2) show ?thesis
      by (auto simp: nth_Cons split: nat.splits)
  qed
qed

lemma issue_cases:
  assumes "issue s = Inr s'"
  shows "s' = s \<or>
         (\<exists>instr q. issue_queue s = instr # q \<and> \<not> RS_full (RS s) \<and> \<not> ROB_full (ROB s) \<and>
            ROB s' = snd (ROB_allocate instr (ROB s)) \<and> trace s' = trace s @ [Issue instr])"
proof (cases "issue_queue s = [] \<or> RS_full (RS s) \<or> ROB_full (ROB s)")
  case True
  then show ?thesis using assms by (auto simp: issue_def issue_with_def Let_def split: if_splits)
next
  case False
  then obtain instr q where q: "issue_queue s = instr # q"
    by (cases "issue_queue s") auto
  from False obtain k where k: "RS_free_slot (RS s) = Some k"
    using RS_free_slot_None [of "RS s"] by auto
  show ?thesis
    using assms False q k
    by (auto simp: issue_def issue_with_def Let_def bind_error_def ROB_allocate_def RS_issue_def
        split: sum.splits prod.splits if_splits)
qed

lemma execute_Inr:
  assumes "execute cfg s = Inr s'"
  shows "\<exists>st. schedule cfg [0..<length (RS s)]
                (RS s, fst (drain_FUs (map (FU_execute cfg) (FUs s)) (CDB s))) = Inr st \<and>
              s' = s\<lparr>RS := fst st, FUs := snd st,
                     CDB := snd (drain_FUs (map (FU_execute cfg) (FUs s)) (CDB s))\<rparr>"
proof (cases "schedule cfg [0..<length (RS s)]
                (RS s, fst (drain_FUs (map (FU_execute cfg) (FUs s)) (CDB s)))")
  case (Inl e)
  then show ?thesis using assms by (simp add: execute_def Let_def bind_error_def)
next
  case (Inr st)
  then show ?thesis using assms by (simp add: execute_def Let_def bind_error_def)
qed

lemma execute_frame:
  assumes "execute cfg s = Inr s'"
  shows "ROB s' = ROB s \<and> trace s' = trace s \<and> RAT s' = RAT s \<and> reg_file s' = reg_file s \<and>
         issue_queue s' = issue_queue s \<and> RST s' = RST s"
proof -
  from execute_Inr [OF assms] obtain st where
    "s' = s\<lparr>RS := fst st, FUs := snd st,
            CDB := snd (drain_FUs (map (FU_execute cfg) (FUs s)) (CDB s))\<rparr>" by blast
  then show ?thesis by simp
qed

lemma ROB_contents_hd:
  assumes "wf_ROB rob" "\<not> ROB_empty rob"
  shows "ROB_contents rob = ROB_get_entry rob (ROB_head_index rob) # tl (ROB_contents rob)"
proof -
  obtain c where c: "rob_count rob = Suc c"
    using assms(2) by (cases "rob_count rob") (simp_all add: ROB_empty_def)
  have "[0..<Suc c] = 0 # [Suc 0..<Suc c]" by (simp add: upt_conv_Cons del: upt_Suc)
  moreover have "rob_head rob < ROB_size rob" using assms(1) c by (auto simp: wf_ROB_def)
  ultimately show ?thesis
    using c by (simp add: ROB_contents_def ROB_get_entry_def ROB_head_index_def del: upt_Suc)
qed

lemma commit_cases:
  assumes "commit s = Inr s'"
  shows "s' = s \<or>
         (\<not> ROB_empty (ROB s) \<and> ready (ROB_get_entry (ROB s) (ROB_head_index (ROB s))) \<and>
          ROB s' = ROB_pop (ROB s) \<and>
          trace s' = trace s @ [Commit (rob_instr (ROB_get_entry (ROB s) (ROB_head_index (ROB s))))])"
  using assms
  by (auto simp: commit_def Let_def bind_error_def split: if_splits sum.splits)

lemma fifo_inv_init: "fifo_inv (init_core rob_n rs_n fu_n regs)"
  by (simp add: fifo_inv_def init_core_def empty_ROB_def wf_ROB_def ROB_contents_def ROB_size_def)

lemma fifo_inv_step:
  assumes "fifo_inv s" "step cfg a s = Inr s'"
  shows "fifo_inv s'"
proof (cases a)
  case (Fetch instr)
  then show ?thesis using assms by (auto simp: fifo_inv_def fetch_def)
next
  case IssuePhase
  then have "issue s = Inr s'" using assms(2) by simp
  from issue_cases [OF this] show ?thesis
  proof
    assume "s' = s" then show ?thesis using assms(1) by simp
  next
    assume "\<exists>instr q. issue_queue s = instr # q \<and> \<not> RS_full (RS s) \<and> \<not> ROB_full (ROB s) \<and>
            ROB s' = snd (ROB_allocate instr (ROB s)) \<and> trace s' = trace s @ [Issue instr]"
    then obtain instr where i: "\<not> ROB_full (ROB s)" "ROB s' = snd (ROB_allocate instr (ROB s))"
      "trace s' = trace s @ [Issue instr]" by blast
    have w: "wf_ROB (ROB s)" using assms(1) by (simp add: fifo_inv_def)
    show ?thesis
      using assms(1) i wf_ROB_allocate [OF w i(1)] ROB_contents_allocate [OF w i(1)]
      by (simp add: fifo_inv_def issued_append committed_append)
  qed
next
  case ExecutePhase
  then have "execute cfg s = Inr s'" using assms(2) by simp
  from execute_frame [OF this] show ?thesis using assms(1) by (simp add: fifo_inv_def)
next
  case WritebackPhase
  then have "s' = writeback s" using assms(2) by simp
  then show ?thesis
    using assms(1)
    by (auto simp: fifo_inv_def writeback_def wf_ROB_update_cdb ROB_update_cdb_contents
        split: option.splits)
next
  case CommitPhase
  then have "commit s = Inr s'" using assms(2) by simp
  from commit_cases [OF this] show ?thesis
  proof
    assume "s' = s" then show ?thesis using assms(1) by simp
  next
    assume c: "\<not> ROB_empty (ROB s) \<and> ready (ROB_get_entry (ROB s) (ROB_head_index (ROB s))) \<and>
          ROB s' = ROB_pop (ROB s) \<and>
          trace s' = trace s @ [Commit (rob_instr (ROB_get_entry (ROB s) (ROB_head_index (ROB s))))]"
    let ?E = "ROB_get_entry (ROB s) (ROB_head_index (ROB s))"
    have w: "wf_ROB (ROB s)" using assms(1) by (simp add: fifo_inv_def)
    have ne: "\<not> ROB_empty (ROB s)" and pop: "ROB s' = ROB_pop (ROB s)"
      and tr: "trace s' = trace s @ [Commit (rob_instr ?E)]"
      using c by simp_all
    have tl: "ROB_contents (ROB s') = tl (ROB_contents (ROB s))"
      by (simp only: pop ROB_contents_pop)
    have hd: "ROB_contents (ROB s) = ?E # ROB_contents (ROB s')"
      unfolding tl by (rule ROB_contents_hd [OF w ne])
    have "issued (trace s') = committed (trace s') @ map rob_instr (ROB_contents (ROB s'))"
    proof -
      have "issued (trace s') = issued (trace s)"
        by (simp add: tr issued_append)
      also have "\<dots> = committed (trace s) @ map rob_instr (ROB_contents (ROB s))"
        using assms(1) by (simp add: fifo_inv_def)
      also have "\<dots> = committed (trace s) @ map rob_instr (?E # ROB_contents (ROB s'))"
        using hd by (rule arg_cong)
      also have "\<dots> = committed (trace s') @ map rob_instr (ROB_contents (ROB s'))"
        by (simp add: tr committed_append)
      finally show ?thesis .
    qed
    moreover have "wf_ROB (ROB s')"
      unfolding pop by (rule wf_ROB_pop [OF w ne])
    ultimately show ?thesis by (simp only: fifo_inv_def simp_thms)
  qed
qed

lemma fifo_inv_run:
  assumes "fifo_inv s" "run cfg acts s = Inr s'"
  shows "fifo_inv s'"
  using assms
proof (induction acts arbitrary: s)
  case Nil
  then show ?case by simp
next
  case (Cons a acts)
  then obtain s1 where s1: "step cfg a s = Inr s1" "run cfg acts s1 = Inr s'"
    by (auto simp: bind_error_def split: sum.splits)
  from Cons.IH [OF fifo_inv_step [OF Cons.prems(1) s1(1)] s1(2)] show ?case .
qed

section \<open>Properties of commit\<close>

text \<open>What \<open>Core::commit\<close> does when the head slot is ready.\<close>

lemma commit_ready:
  assumes "\<not> ROB_empty (ROB s)" "ready (ROB_get_entry (ROB s) (ROB_head_index (ROB s)))"
  shows "commit s =
     bind_error
       (if use_rd (rob_instr (ROB_get_entry (ROB s) (ROB_head_index (ROB s)))) then
          (if getRd (rob_instr (ROB_get_entry (ROB s) (ROB_head_index (ROB s)))) < length (reg_file s) then
             Inr (s\<lparr>reg_file := (reg_file s)[getRd (rob_instr (ROB_get_entry (ROB s) (ROB_head_index (ROB s)))) :=
                                  result (ROB_get_entry (ROB s) (ROB_head_index (ROB s)))],
                    RAT := (if RAT (s) (getRd (rob_instr (ROB_get_entry (ROB s) (ROB_head_index (ROB s))))) = Some (ROB_head_index (ROB s))
                            then (RAT s)(getRd (rob_instr (ROB_get_entry (ROB s) (ROB_head_index (ROB s)))) := None) else RAT s)\<rparr>)
           else Inl OutOfRange)
        else Inr s)
       (\<lambda>s1. if instrs s1 \<le> fetched_instrs s1 then
               Inr (s1\<lparr>ROB := ROB_pop (ROB s1),
                       trace := trace s1 @ [Commit (rob_instr (ROB_get_entry (ROB s) (ROB_head_index (ROB s))))],
                       instrs := instrs s1 + 1,
                       exited := (exited s1 \<or> is_exit (rob_instr (ROB_get_entry (ROB s) (ROB_head_index (ROB s)))))\<rparr>)
             else Inl AssertionFailed)"
  using assms
  by (simp add: commit_def Let_def RAT_exists_def RAT_get_def RAT_clear_def split: option.splits)

lemma run_append: "run cfg (as @ bs) s = bind_error (run cfg as s) (run cfg bs)"
  by (induction as arbitrary: s) (simp_all add: bind_error_def split: sum.splits)

lemma run_snoc: "run cfg as s = Inr s1 \<Longrightarrow> run cfg (as @ [a]) s = step cfg a s1"
  by (simp add: run_append bind_error_def split: sum.splits)

section \<open>Properties of issue\<close>

lemma get_operand_rule:
  assumes "tomasulo_inv s" and "get_operand s True r = Inr (d, i)"
  shows "spec_operand_rule s r i d"
proof (cases "RAT s r")
  case None
  then show ?thesis
    using assms(2)
    by (auto simp: get_operand_def spec_operand_rule_def RAT_exists_def split: if_splits)
next
  case (Some v)
  show ?thesis
  proof (cases "ready (ROB_get_entry (ROB s) v)")
    case True
    then show ?thesis
      using assms(2) Some
      by (simp add: get_operand_def spec_operand_rule_def RAT_exists_def RAT_get_def)
  next
    case False
    then have i: "i = RST s ! nat v"
      using assms(2) Some
      by (simp add: get_operand_def RAT_exists_def RAT_get_def)
    have "RAT_ok s" "producer_ok s" using assms(1) by (simp_all add: tomasulo_inv_def)
    then have "nat v \<in> set (ROB_positions (ROB s))"
      using Some by (simp add: RAT_ok_def)
    moreover have "\<not> ready (rob_store (ROB s) ! nat v)"
      using False by (simp add: ROB_get_entry_def)
    ultimately have "0 \<le> RST s ! nat v"
      using \<open>producer_ok s\<close> by (simp add: producer_ok_def)
    then have "i \<noteq> - 1" using i by simp
    then show ?thesis using False Some i by (simp add: spec_operand_rule_def)
  qed
qed

lemma get_operand_unused: "get_operand s False r = Inr (0, - 1)"
  by (simp add: get_operand_def)

lemma issue_Inr_new_entry:
  assumes "issue_queue s = instr # q" "\<not> RS_full (RS s)" "\<not> ROB_full (ROB s)"
    "issue s = Inr s'" "RS_free_slot (RS s) = Some k"
  shows "\<exists>d1 i1 d2 i2.
     get_operand s (use_rs1 instr) (getRs1 instr) = Inr (d1, i1) \<and>
     get_operand s (use_rs2 instr) (getRs2 instr) = Inr (d2, i2) \<and>
     RS s' = (RS s)[k := \<lparr>valid = True, running = False,
                           rob_index = int (rob_tail (ROB s)), rs1_index = i1,
                           rs2_index = i2, rs1_data = d1, rs2_data = d2, rs_instr = instr\<rparr>] \<and>
     RST s' = (RST s)[rob_tail (ROB s) := int k] \<and> issue_queue s' = q \<and>
     ROB s' = snd (ROB_allocate instr (ROB s)) \<and>
     RAT s' = (if use_rd instr then (RAT s)(getRd instr \<mapsto> int (rob_tail (ROB s))) else RAT s)"
proof -
  obtain d1 i1 where o1: "get_operand s (use_rs1 instr) (getRs1 instr) = Inr (d1, i1)"
    using assms(1-4)
    by (cases "get_operand s (use_rs1 instr) (getRs1 instr)")
      (auto simp: issue_def issue_with_def bind_error_def)
  obtain d2 i2 where o2: "get_operand s (use_rs2 instr) (getRs2 instr) = Inr (d2, i2)"
    using assms(1-4) o1
    by (cases "get_operand s (use_rs2 instr) (getRs2 instr)")
      (auto simp: issue_def issue_with_def bind_error_def)
  show ?thesis
    using assms o1 o2
    by (auto simp: issue_def issue_with_def bind_error_def Let_def ROB_allocate_def RS_issue_def
        RAT_set_def)
qed

section \<open>Reservation stations stay valid until released\<close>

lemma update_operands_valid [simp]: "valid (update_operands d e) = valid e"
  by (simp add: update_operands_def Let_def)

lemma update_operands_no_ref:
  "0 \<le> cdb_rs_index d \<Longrightarrow>
   rs1_index (update_operands d e) \<noteq> cdb_rs_index d \<and>
   rs2_index (update_operands d e) \<noteq> cdb_rs_index d"
  by (auto simp: update_operands_def Let_def)

lemma update_operands_wake1:
  "0 \<le> cdb_rs_index d \<Longrightarrow> rs1_index e = cdb_rs_index d \<Longrightarrow>
   rs1_index (update_operands d e) = - 1 \<and> rs1_data (update_operands d e) = cdb_result d"
  by (auto simp: update_operands_def Let_def)

lemma update_operands_wake2:
  "0 \<le> cdb_rs_index d \<Longrightarrow> rs2_index e = cdb_rs_index d \<Longrightarrow>
   rs2_index (update_operands d e) = - 1 \<and> rs2_data (update_operands d e) = cdb_result d"
  by (auto simp: update_operands_def Let_def)

lemma schedule_entry_valid:
  assumes "schedule_entry cfg i st = Inr st'"
  shows "map valid (fst st') = map valid (fst st)"
proof -
  have "map valid ((fst st)[i := (fst st ! i)\<lparr>running := True\<rparr>]) = map valid (fst st)"
    by (cases "i < length (fst st)") (simp_all add: map_update list_update_same_conv list_update_beyond)
  then show ?thesis
    using assms by (auto simp: schedule_entry_def Let_def split: if_splits)
qed

lemma schedule_valid:
  "schedule cfg is st = Inr st' \<Longrightarrow> map valid (fst st') = map valid (fst st)"
proof (induction "is" arbitrary: st)
  case Nil
  then show ?case by simp
next
  case (Cons i "is")
  then obtain st1 where 1: "schedule_entry cfg i st = Inr st1" "schedule cfg is st1 = Inr st'"
    by (auto simp: bind_error_def split: sum.splits)
  show ?case using Cons.IH [OF 1(2)] schedule_entry_valid [OF 1(1)] by simp
qed

lemma execute_valid:
  assumes "execute cfg s = Inr s'"
  shows "map valid (RS s') = map valid (RS s)"
proof -
  from execute_Inr [OF assms] obtain st where
    st: "schedule cfg [0..<length (RS s)]
           (RS s, fst (drain_FUs (map (FU_execute cfg) (FUs s)) (CDB s))) = Inr st"
    and s': "s' = s\<lparr>RS := fst st, FUs := snd st,
                     CDB := snd (drain_FUs (map (FU_execute cfg) (FUs s)) (CDB s))\<rparr>"
    by blast
  show ?thesis using schedule_valid [OF st] by (simp add: s')
qed

lemma issue_valid:
  assumes "issue s = Inr s'" "i < length (RS s)" "valid (RS s ! i)"
  shows "valid (RS s' ! i)"
proof (cases "issue_queue s = [] \<or> RS_full (RS s) \<or> ROB_full (ROB s)")
  case True
  then have "s' = s" using assms(1) by (auto simp: issue_def issue_with_def Let_def split: if_splits)
  then show ?thesis using assms(3) by simp
next
  case False
  then obtain instr q where q: "issue_queue s = instr # q"
    by (cases "issue_queue s") auto
  from False obtain k where k: "RS_free_slot (RS s) = Some k"
    using RS_free_slot_None [of "RS s"] by auto
  from issue_Inr_new_entry [OF q _ _ assms(1) k] False obtain e where
    "RS s' = (RS s)[k := e]" "valid e" by auto
  then show ?thesis using assms(2,3) by (cases "i = k") simp_all
qed

lemma commit_RS: "commit s = Inr s' \<Longrightarrow> RS s' = RS s"
  by (auto simp: commit_def Let_def bind_error_def split: if_splits sum.splits)

lemma map_valid_nth:
  "map valid xs = map valid ys \<Longrightarrow> i < length ys \<Longrightarrow> valid (xs ! i) = valid (ys ! i)"
  by (metis length_map nth_map)

lemma writeback_release:
  assumes "CDB s = Some d" "i < length (RS s)" "valid (RS s ! i)" "\<not> valid (RS (writeback s) ! i)"
  shows "cdb_rs_index d = int i"
proof -
  let ?w = "map (\<lambda>entry. if valid entry then update_operands d entry else entry) (RS s)"
  have rs': "RS (writeback s) = RS_release (cdb_rs_index d) ?w"
    using assms(1) by (simp add: writeback_def)
  have wi: "valid (?w ! i)" using assms(2,3) by simp
  show ?thesis
  proof (rule ccontr)
    assume ne: "cdb_rs_index d \<noteq> int i"
    have "RS (writeback s) ! i = ?w ! i"
      using ne by (cases "0 \<le> cdb_rs_index d") (auto simp: rs' RS_release_def)
    then show False using wi assms(4) by simp
  qed
qed

lemma writeback_RS:
  assumes "CDB s = Some d" "cdb_rs_index d = int i"
  shows "RS (writeback s) =
           (map (\<lambda>entry. if valid entry then update_operands d entry else entry) (RS s))
             [i := (map (\<lambda>entry. if valid entry then update_operands d entry else entry) (RS s) ! i)
                     \<lparr>valid := False, running := False\<rparr>]"
  using assms by (simp add: writeback_def RS_release_def)

section \<open>Properties of execute\<close>

lemma drain_FUs_none:
  "\<forall>fu\<in>set fus. \<not> fu_done fu \<Longrightarrow> drain_FUs fus cdb = (fus, cdb)"
  by (induction fus) simp_all

lemma drain_FUs_first:
  assumes "k < length fus" "fu_done (fus ! k)" "\<forall>i<k. \<not> fu_done (fus ! i)"
  shows "drain_FUs fus cdb = (fus[k := FU_clear (fus ! k)], CDB_push (FU_get_output (fus ! k)) cdb)"
  using assms
proof (induction fus arbitrary: k)
  case Nil
  then show ?case by simp
next
  case (Cons fu fus)
  show ?case
  proof (cases k)
    case 0
    then show ?thesis using Cons.prems by simp
  next
    case (Suc k')
    have nd: "\<not> fu_done fu" using Cons.prems(3) Suc by auto
    have "\<forall>i<k'. \<not> fu_done (fus ! i)" using Cons.prems(3) Suc by auto
    from Cons.IH [OF _ _ this] Cons.prems(1,2) Suc nd show ?thesis by simp
  qed
qed

lemma first_done_exists:
  assumes "fu_done (fus ! j)"
  shows "\<exists>k\<le>j. fu_done (fus ! k) \<and> (\<forall>i<k. \<not> fu_done (fus ! i))"
proof -
  let ?k = "LEAST k. fu_done (fus ! k)"
  have "fu_done (fus ! ?k)" using assms by (rule LeastI)
  moreover have "?k \<le> j" using assms by (rule Least_le)
  moreover have "\<forall>i<?k. \<not> fu_done (fus ! i)" using not_less_Least by blast
  ultimately show ?thesis by blast
qed

lemma FU_execute_done: "fu_done fu \<Longrightarrow> FU_execute cfg fu = fu"
  by (simp add: FU_execute_def)

lemma FU_execute_wf: "fu_done fu \<longrightarrow> fu_busy fu \<Longrightarrow>
  fu_done (FU_execute cfg fu) \<longrightarrow> fu_busy (FU_execute cfg fu)"
  by (simp add: FU_execute_def)

lemma FUs_wf_advance: "FUs_wf fus \<Longrightarrow> FUs_wf (map (FU_execute cfg) fus)"
  using FU_execute_wf by (auto simp: FUs_wf_def)

lemma schedule_entry_FUs:
  assumes "schedule_entry cfg i st = Inr st'" "j < length (snd st)"
  shows "length (snd st') = length (snd st) \<and>
         (snd st' ! j = snd st ! j \<or>
          (\<not> fu_busy (snd st ! j) \<and> fu_busy (snd st' ! j) \<and> \<not> fu_done (snd st' ! j)))"
  using assms
  by (cases "j = getFUType (rs_instr (fst st ! i))")
    (auto simp: schedule_entry_def Let_def FU_issue_def split: if_splits)

lemma schedule_FUs:
  assumes "schedule cfg is st = Inr st'" "j < length (snd st)"
  shows "length (snd st') = length (snd st) \<and>
         (snd st' ! j = snd st ! j \<or>
          (\<not> fu_busy (snd st ! j) \<and> fu_busy (snd st' ! j) \<and> \<not> fu_done (snd st' ! j)))"
  using assms
proof (induction "is" arbitrary: st)
  case Nil
  then show ?case by simp
next
  case (Cons i "is")
  then obtain st1 where 1: "schedule_entry cfg i st = Inr st1" "schedule cfg is st1 = Inr st'"
    by (auto simp: bind_error_def split: sum.splits)
  from schedule_entry_FUs [OF 1(1) Cons.prems(2)]
  have e: "length (snd st1) = length (snd st)"
    "snd st1 ! j = snd st ! j \<or>
       (\<not> fu_busy (snd st ! j) \<and> fu_busy (snd st1 ! j) \<and> \<not> fu_done (snd st1 ! j))"
    by simp_all
  then have "j < length (snd st1)" using Cons.prems(2) by simp
  from Cons.IH [OF 1(2) this]
  have r: "length (snd st') = length (snd st1)"
    "snd st' ! j = snd st1 ! j \<or>
       (\<not> fu_busy (snd st1 ! j) \<and> fu_busy (snd st' ! j) \<and> \<not> fu_done (snd st' ! j))"
    by simp_all
  show ?case using e r by auto
qed

lemma schedule_entry_length:
  "schedule_entry cfg i st = Inr st' \<Longrightarrow> length (snd st') = length (snd st)"
  by (auto simp: schedule_entry_def Let_def split: if_splits)

lemma schedule_length:
  "schedule cfg is st = Inr st' \<Longrightarrow> length (snd st') = length (snd st)"
proof (induction "is" arbitrary: st)
  case Nil
  then show ?case by simp
next
  case (Cons i "is")
  then obtain st1 where 1: "schedule_entry cfg i st = Inr st1" "schedule cfg is st1 = Inr st'"
    by (auto simp: bind_error_def split: sum.splits)
  show ?case using Cons.IH [OF 1(2)] schedule_entry_length [OF 1(1)] by simp
qed

lemma issue_FUs:
  assumes "issue s = Inr s'"
  shows "FUs s' = FUs s"
proof (cases "issue_queue s = [] \<or> RS_full (RS s) \<or> ROB_full (ROB s)")
  case True
  then have "s' = s" using assms by (auto simp: issue_def issue_with_def Let_def split: if_splits)
  then show ?thesis by simp
next
  case False
  then show ?thesis
    using assms
    by (auto simp: issue_def issue_with_def Let_def bind_error_def
        split: sum.splits prod.splits if_splits)
qed

lemma commit_FUs: "commit s = Inr s' \<Longrightarrow> FUs s' = FUs s"
  by (auto simp: commit_def Let_def bind_error_def split: if_splits sum.splits)

lemma writeback_FUs: "FUs (writeback s) = FUs s"
  by (simp add: writeback_def split: option.splits)

lemma writeback_CDB: "CDB (writeback s) = None"
  by (simp add: writeback_def split: option.splits)

lemma step_FUs:
  assumes "step cfg a s = Inr s'" "a \<noteq> ExecutePhase"
  shows "FUs s' = FUs s"
  using assms
  by (cases a) (auto simp: fetch_def issue_FUs commit_FUs writeback_FUs)

lemma execute_first_completed:
  fixes cfg :: config and s :: core
  defines "adv \<equiv> map (FU_execute cfg) (FUs s)"
  assumes "CDB s = None" "FUs_wf (FUs s)" "execute cfg s = Inr s'"
    and k: "k < length adv" "fu_done (adv ! k)" "\<forall>i<k. \<not> fu_done (adv ! i)"
  shows "CDB s' = Some (FU_get_output (adv ! k)) \<and> \<not> fu_done (FUs s' ! k) \<and>
         (\<forall>j<length adv. j \<noteq> k \<and> fu_done (adv ! j) \<longrightarrow> FUs s' ! j = adv ! j)"
proof -
  have dr: "drain_FUs adv (CDB s) = (adv[k := FU_clear (adv ! k)], Some (FU_get_output (adv ! k)))"
    using drain_FUs_first [OF k] by (simp add: CDB_push_def)
  from execute_Inr [OF assms(4)] obtain st where
    st: "schedule cfg [0..<length (RS s)] (RS s, adv[k := FU_clear (adv ! k)]) = Inr st"
    and s': "s' = s\<lparr>RS := fst st, FUs := snd st, CDB := Some (FU_get_output (adv ! k))\<rparr>"
    unfolding adv_def [symmetric] dr by auto
  have wf: "FUs_wf adv" unfolding adv_def by (rule FUs_wf_advance [OF assms(3)])
  have sch: "snd st ! j = (adv[k := FU_clear (adv ! k)]) ! j \<or>
      (\<not> fu_busy ((adv[k := FU_clear (adv ! k)]) ! j) \<and> fu_busy (snd st ! j) \<and> \<not> fu_done (snd st ! j))"
    if "j < length adv" for j
    using schedule_FUs [OF st, of j] that by simp
  have 1: "\<not> fu_done (FUs s' ! k)"
    using sch [OF k(1)] k(1) by (auto simp: s' FU_clear_def)
  have 2: "FUs s' ! j = adv ! j" if "j < length adv" "j \<noteq> k" "fu_done (adv ! j)" for j
  proof -
    have "fu_busy (adv ! j)" using wf that(1,3) by (auto simp: FUs_wf_def)
    then show ?thesis using sch [OF that(1)] that(2) by (simp add: s')
  qed
  show ?thesis using 1 2 by (simp add: s')
qed

lemma execute_none_completed:
  assumes "CDB s = None" "execute cfg s = Inr s'"
    "\<forall>fu\<in>set (map (FU_execute cfg) (FUs s)). \<not> fu_done fu"
  shows "CDB s' = None"
proof -
  have dr: "drain_FUs (map (FU_execute cfg) (FUs s)) (CDB s) = (map (FU_execute cfg) (FUs s), None)"
    using drain_FUs_none [OF assms(3)] assms(1) by simp
  from execute_Inr [OF assms(2)] show ?thesis unfolding dr by auto
qed

lemma execute_FUs_wf:
  assumes "FUs_wf (FUs s)" "execute cfg s = Inr s'"
  shows "length (FUs s') = length (FUs s) \<and> FUs_wf (FUs s')"
proof -
  let ?adv = "map (FU_execute cfg) (FUs s)"
  let ?dr = "fst (drain_FUs ?adv (CDB s))"
  from execute_Inr [OF assms(2)] obtain st where
    st: "schedule cfg [0..<length (RS s)] (RS s, ?dr) = Inr st"
    and s': "FUs s' = snd st" by auto
  have wf: "FUs_wf ?adv" by (rule FUs_wf_advance [OF assms(1)])
  have dr: "length ?dr = length ?adv \<and> FUs_wf ?dr"
  proof (cases "\<forall>fu\<in>set ?adv. \<not> fu_done fu")
    case True
    then show ?thesis using drain_FUs_none [OF True] wf by simp
  next
    case False
    then obtain fu where "fu \<in> set ?adv" "fu_done fu" by blast
    then obtain j where j: "j < length ?adv" "fu_done (?adv ! j)"
      unfolding in_set_conv_nth by blast
    from first_done_exists [OF j(2)] obtain k where
      k': "k \<le> j" and k: "fu_done (?adv ! k)" "\<forall>i<k. \<not> fu_done (?adv ! i)"
      by blast
    have kl: "k < length ?adv" using k' j(1) by simp
    have "FUs_wf (?adv[k := FU_clear (?adv ! k)])"
      using wf by (auto simp: FUs_wf_def FU_clear_def dest!: set_update_subset_insert [THEN subsetD])
    then show ?thesis using drain_FUs_first [OF kl k] by simp
  qed
  have len: "length (snd st) = length ?dr"
    using schedule_length [OF st] by simp
  have "fu_done fu \<longrightarrow> fu_busy fu" if "fu \<in> set (snd st)" for fu
  proof -
    from that obtain j where j: "j < length (snd st)" "fu = snd st ! j"
      by (auto simp: in_set_conv_nth)
    then have "j < length ?dr" using len by simp
    from schedule_FUs [OF st, of j] this dr j show ?thesis
      by (auto simp: FUs_wf_def)
  qed
  then show ?thesis using len dr by (simp add: s' FUs_wf_def)
qed

section \<open>Properties of the branch predictor\<close>

lemma counter_inc: "(c::u8) < 3 \<Longrightarrow> c + 1 \<le> 3"
  by unat_arith

lemma counter_dec: "(c::u8) \<le> 3 \<Longrightarrow> 0 < c \<Longrightarrow> c - 1 \<le> 3"
  by unat_arith

lemma update_counter_bound:
  assumes "\<forall>c\<in>set pht. c \<le> 3"
  shows "\<forall>c\<in>set (update_counter pht i taken). c \<le> 3"
proof (cases "i < length pht")
  case True
  then have "pht ! i \<le> 3" using assms by simp
  then show ?thesis
    using assms counter_inc [of "pht ! i"] counter_dec [of "pht ! i"]
    by (auto simp: update_counter_def dest!: set_update_subset_insert [THEN subsetD])
next
  case False
  then show ?thesis using assms by (simp add: update_counter_def list_update_beyond)
qed

lemma update_counter_length [simp]: "length (update_counter pht i taken) = length pht"
  by (simp add: update_counter_def)

lemma pht_index_bound8: "unat (ucast ((x :: u32) AND ucast (m :: u8)) :: u8) \<le> unat m"
proof -
  have "unat (ucast (x AND ucast m) :: u8) \<le> unat (x AND ucast m)"
    by (simp add: unsigned_ucast_eq)
  also have "\<dots> \<le> unat (ucast m :: u32)"
    using word_and_le1 [of x "ucast m"] by (simp add: word_le_nat_alt)
  also have "\<dots> = unat m"
  proof -
    have "unat m < 2 ^ 32"
      by (rule less_le_trans [OF unsigned_less]) simp
    then show ?thesis by (simp add: unsigned_ucast_eq take_bit_nat_eq_self)
  qed
  finally show ?thesis .
qed

lemma pht_index_bound16: "unat (ucast ((x :: u32) AND ucast (m :: u16)) :: u16) \<le> unat m"
proof -
  have "unat (ucast (x AND ucast m) :: u16) \<le> unat (x AND ucast m)"
    by (simp add: unsigned_ucast_eq)
  also have "\<dots> \<le> unat (ucast m :: u32)"
    using word_and_le1 [of x "ucast m"] by (simp add: word_le_nat_alt)
  also have "\<dots> = unat m"
  proof -
    have "unat m < 2 ^ 32"
      by (rule less_le_trans [OF unsigned_less]) simp
    then show ?thesis by (simp add: unsigned_ucast_eq take_bit_nat_eq_self)
  qed
  finally show ?thesis .
qed

lemma btb_index_bound:
  assumes "(bs :: u32) \<noteq> 0"
  shows "unat (y AND (bs - 1)) < unat bs"
proof -
  have "unat (y AND (bs - 1)) \<le> unat (bs - 1)"
    using word_and_le1 [of y "bs - 1"] by (simp add: word_le_nat_alt)
  also have "\<dots> = unat bs - 1" using assms by (rule unat_minus_one)
  also have "\<dots> < unat bs" using assms by (simp add: unat_gt_0)
  finally show ?thesis .
qed

lemma update_BTB_Some:
  assumes "length btb = unat bs" "bs \<noteq> 0"
  shows "\<exists>btb'. update_BTB btb (bs - 1) sh PC np = Some btb' \<and> length btb' = length btb"
  using assms btb_index_bound [OF assms(2), of "drop_bit 2 PC"]
  by (simp add: update_BTB_def Let_def)

lemma GShare_update_inv:
  assumes "GShare_inv n bs g" "bs \<noteq> 0"
  shows "\<exists>g'. GShare_update g PC np taken = Some g' \<and> GShare_inv n bs g'"
proof -
  let ?i = "ucast ((drop_bit 2 PC XOR ucast (g_BHR g)) AND ucast (g_BHR_mask g)) :: u8"
  have i: "unat ?i < length (g_PHT g)"
    using pht_index_bound8 [of "drop_bit 2 PC XOR ucast (g_BHR g)" "g_BHR_mask g"] assms(1)
    by (simp add: GShare_inv_def)
  have b: "\<forall>c\<in>set (update_counter (g_PHT g) (unat ?i) taken). c \<le> 3"
    using assms(1) by (intro update_counter_bound) (simp add: GShare_inv_def)
  have len: "length (g_BTB g) = unat bs" "g_BTB_mask g = bs - 1"
    using assms(1) by (simp_all add: GShare_inv_def)
  from update_BTB_Some [OF len(1) assms(2), of "g_BTB_shift g" PC np] obtain btb' where
    btb': "update_BTB (g_BTB g) (bs - 1) (g_BTB_shift g) PC np = Some btb'"
    "length btb' = length (g_BTB g)" by blast
  show ?thesis
    using i b len btb' assms(1)
    by (cases taken) (simp_all add: GShare_update_def Let_def GShare_inv_def)
qed

lemma GSharePlus_update_inv:
  assumes "GSharePlus_inv n bs g" "bs \<noteq> 0"
  shows "\<exists>g'. GSharePlus_update g PC np taken = Some g' \<and> GSharePlus_inv n bs g'"
proof -
  let ?i = "ucast ((drop_bit 2 PC XOR ucast (p_BHR g)) AND ucast (p_BHR_mask g)) :: u16"
  have i: "unat ?i < length (p_PHT g)"
    using pht_index_bound16 [of "drop_bit 2 PC XOR ucast (p_BHR g)" "p_BHR_mask g"] assms(1)
    by (simp add: GSharePlus_inv_def)
  have b: "\<forall>c\<in>set (update_counter (p_PHT g) (unat ?i) taken). c \<le> 3"
    using assms(1) by (intro update_counter_bound) (simp add: GSharePlus_inv_def)
  have len: "length (p_BTB g) = unat bs" "p_BTB_mask g = bs - 1"
    using assms(1) by (simp_all add: GSharePlus_inv_def)
  from update_BTB_Some [OF len(1) assms(2), of "p_BTB_shift g" PC np] obtain btb' where
    btb': "update_BTB (p_BTB g) (bs - 1) (p_BTB_shift g) PC np = Some btb'"
    "length btb' = length (p_BTB g)" by blast
  show ?thesis
    using i b len btb' assms(1)
    by (cases taken) (simp_all add: GSharePlus_update_def Let_def GSharePlus_inv_def)
qed

lemma GShare_updates_inv:
  assumes "GShare_inv n bs g" "bs \<noteq> 0"
  shows "\<exists>g'. GShare_updates g us = Some g' \<and> GShare_inv n bs g'"
  using assms(1)
proof (induction us arbitrary: g)
  case Nil
  then show ?case by simp
next
  case (Cons u us)
  obtain PC np taken where u: "u = (PC, np, taken)" by (cases u)
  from GShare_update_inv [OF Cons.prems assms(2), of PC np taken] obtain g1 where
    g1: "GShare_update g PC np taken = Some g1" "GShare_inv n bs g1" by blast
  from Cons.IH [OF g1(2)] show ?case by (simp add: u g1(1))
qed

lemma GSharePlus_updates_inv:
  assumes "GSharePlus_inv n bs g" "bs \<noteq> 0"
  shows "\<exists>g'. GSharePlus_updates g us = Some g' \<and> GSharePlus_inv n bs g'"
  using assms(1)
proof (induction us arbitrary: g)
  case Nil
  then show ?case by simp
next
  case (Cons u us)
  obtain PC np taken where u: "u = (PC, np, taken)" by (cases u)
  from GSharePlus_update_inv [OF Cons.prems assms(2), of PC np taken] obtain g1 where
    g1: "GSharePlus_update g PC np taken = Some g1" "GSharePlus_inv n bs g1" by blast
  from Cons.IH [OF g1(2)] show ?case by (simp add: u g1(1))
qed

lemma mask_bound: "(2 ^ n - 1) mod m < (2::nat) ^ n"
  by (rule le_less_trans [OF mod_less_eq_dividend]) simp

lemma GShare_init_inv: "GShare_inv n bs (GShare_init l bs n)"
proof -
  have "unat (of_nat (2 ^ n - 1) :: u8) < 2 ^ n"
    by (simp only: unat_of_nat mask_bound)
  then show ?thesis by (simp add: GShare_inv_def GShare_init_def del: of_nat_diff)
qed

lemma GSharePlus_init_inv: "GSharePlus_inv n bs (GSharePlus_init l bs n)"
proof -
  have "unat (of_nat (2 ^ n - 1) :: u16) < 2 ^ n"
    by (simp only: unat_of_nat mask_bound)
  then show ?thesis by (simp add: GSharePlus_inv_def GSharePlus_init_def del: of_nat_diff)
qed

section \<open>The scheduling structures stay consistent\<close>

lemma released_by_writeback_only:
  assumes "step cfg a s = Inr s'" and "i < length (RS s)" and "valid (RS s ! i)"
    and "\<not> valid (RS s' ! i)"
  shows "a = WritebackPhase \<and>
         (\<exists>d. CDB s = Some d \<and> cdb_rs_index d = int i \<and>
            (\<forall>j<length (RS s). valid (RS s ! j) \<and> j \<noteq> i \<longrightarrow>
               valid (RS s' ! j) \<and>
               (rs1_index (RS s ! j) = int i \<longrightarrow>
                  rs1_index (RS s' ! j) = - 1 \<and> rs1_data (RS s' ! j) = cdb_result d) \<and>
               (rs2_index (RS s ! j) = int i \<longrightarrow>
                  rs2_index (RS s' ! j) = - 1 \<and> rs2_data (RS s' ! j) = cdb_result d)) \<and>
            (\<forall>e\<in>set (RS s'). valid e \<longrightarrow> rs1_index e \<noteq> int i \<and> rs2_index e \<noteq> int i))"
proof (cases a)
  case (Fetch instr)
  then have "RS s' = RS s" using assms(1) by (auto simp: fetch_def)
  then show ?thesis using assms(3,4) by simp
next
  case IssuePhase
  then have "issue s = Inr s'" using assms(1) by simp
  from issue_valid [OF this assms(2,3)] assms(4) show ?thesis by simp
next
  case ExecutePhase
  then have "execute cfg s = Inr s'" using assms(1) by simp
  from map_valid_nth [OF execute_valid [OF this] assms(2)] assms(3,4) show ?thesis by simp
next
  case CommitPhase
  then have "commit s = Inr s'" using assms(1) by simp
  from commit_RS [OF this] assms(3,4) show ?thesis by simp
next
  case WritebackPhase
  then have s': "s' = writeback s" using assms(1) by simp
  obtain d where d: "CDB s = Some d"
    using assms(3,4) s' by (cases "CDB s") (auto simp: writeback_def)
  have k: "cdb_rs_index d = int i"
    using writeback_release [OF d assms(2,3)] assms(4) s' by simp
  then have k0: "0 \<le> cdb_rs_index d" by simp
  let ?w = "map (\<lambda>entry. if valid entry then update_operands d entry else entry) (RS s)"
  have rs': "RS s' = ?w[i := (?w ! i)\<lparr>valid := False, running := False\<rparr>]"
    unfolding s' by (rule writeback_RS [OF d k])
  have woken: "valid (RS s' ! j) \<and>
               (rs1_index (RS s ! j) = int i \<longrightarrow>
                  rs1_index (RS s' ! j) = - 1 \<and> rs1_data (RS s' ! j) = cdb_result d) \<and>
               (rs2_index (RS s ! j) = int i \<longrightarrow>
                  rs2_index (RS s' ! j) = - 1 \<and> rs2_data (RS s' ! j) = cdb_result d)"
    if "j < length (RS s)" "valid (RS s ! j)" "j \<noteq> i" for j
  proof -
    have "RS s' ! j = update_operands d (RS s ! j)"
      using that by (simp add: rs')
    then show ?thesis
      using that(2) update_operands_wake1 [OF k0, of "RS s ! j"]
        update_operands_wake2 [OF k0, of "RS s ! j"] k
      by simp
  qed
  have noref: "rs1_index e \<noteq> int i \<and> rs2_index e \<noteq> int i" if "e \<in> set (RS s')" "valid e" for e
  proof -
    from that(1) obtain j where j: "j < length (RS s')" "e = RS s' ! j"
      by (auto simp: in_set_conv_nth)
    have len: "length (RS s') = length (RS s)" by (simp add: rs')
    have "j \<noteq> i" using that(2) j assms(4) by auto
    then have "e = (if valid (RS s ! j) then update_operands d (RS s ! j) else RS s ! j)"
      using j len by (simp add: rs')
    then have "e = update_operands d (RS s ! j)" using that(2) by (simp split: if_splits)
    then show ?thesis using update_operands_no_ref [OF k0, of "RS s ! j"] k by simp
  qed
  show ?thesis using WritebackPhase d k woken noref by blast
qed

lemma ROB_positions_pop: "ROB_positions (ROB_pop rob) = tl (ROB_positions rob)"
proof -
  have "\<And>k. ((rob_head rob + 1) mod ROB_size rob + k) mod ROB_size rob =
            (rob_head rob + Suc k) mod ROB_size rob"
    by (simp add: mod_add_left_eq)
  then show ?thesis
    by (simp add: ROB_positions_def ROB_pop_def ROB_size_def tl_map_upt)
qed

lemma ROB_positions_hd:
  assumes "wf_ROB rob" "\<not> ROB_empty rob"
  shows "ROB_positions rob = rob_head rob # ROB_positions (ROB_pop rob)"
proof -
  obtain c where c: "rob_count rob = Suc c"
    using assms(2) by (cases "rob_count rob") (simp_all add: ROB_empty_def)
  have u: "[0..<Suc c] = 0 # [Suc 0..<Suc c]" by (simp add: upt_conv_Cons del: upt_Suc)
  have h: "rob_head rob < ROB_size rob" using assms(1) c by (auto simp: wf_ROB_def)
  have "ROB_positions rob = rob_head rob # tl (ROB_positions rob)"
    using c h by (simp add: ROB_positions_def u del: upt_Suc)
  then show ?thesis by (simp add: ROB_positions_pop)
qed

lemma ROB_positions_update_cdb [simp]:
  "ROB_positions (ROB_update_cdb d rob) = ROB_positions rob"
  by (simp add: ROB_positions_def ROB_update_cdb_def ROB_size_def Let_def)

lemma ROB_positions_inj:
  assumes "wf_ROB rob" "k < rob_count rob" "k' < rob_count rob"
    "(rob_head rob + k) mod ROB_size rob = (rob_head rob + k') mod ROB_size rob"
  shows "k = k'"
proof (rule ccontr)
  assume ne: "k \<noteq> k'"
  have n: "rob_count rob \<le> ROB_size rob" using assms(1) by (simp add: wf_ROB_def)
  show False
  proof (cases "k < k'")
    case True
    then show ?thesis using mod_add_inj [of k k' "ROB_size rob" "rob_head rob"] assms n by simp
  next
    case False
    then have "k' < k" using ne by simp
    then show ?thesis using mod_add_inj [of k' k "ROB_size rob" "rob_head rob"] assms n by simp
  qed
qed

lemma ROB_positions_distinct:
  assumes "wf_ROB rob"
  shows "distinct (ROB_positions rob)"
  unfolding ROB_positions_def distinct_map
  using ROB_positions_inj [OF assms] by (auto simp: inj_on_def)

lemma ROB_positions_less:
  assumes "wf_ROB rob" "p \<in> set (ROB_positions rob)"
  shows "p < ROB_size rob"
proof -
  from assms(2) obtain k where k: "k < rob_count rob" "p = (rob_head rob + k) mod ROB_size rob"
    by (auto simp: ROB_positions_def)
  then have "0 < ROB_size rob" using assms(1) by (auto simp: wf_ROB_def)
  then show ?thesis using k by simp
qed

lemma ROB_positions_allocate:
  assumes "wf_ROB rob" "\<not> ROB_full rob"
  shows "ROB_positions (snd (ROB_allocate instr rob)) = ROB_positions rob @ [rob_tail rob]"
    and "rob_tail rob \<notin> set (ROB_positions rob)"
    and "rob_tail rob < ROB_size rob"
proof -
  have lt: "rob_count rob < ROB_size rob" using assms by (simp add: wf_ROB_def ROB_full_def)
  then have t: "rob_tail rob = (rob_head rob + rob_count rob) mod ROB_size rob"
    using assms(1) by (simp add: wf_ROB_def)
  show "ROB_positions (snd (ROB_allocate instr rob)) = ROB_positions rob @ [rob_tail rob]"
    using assms(2) t by (simp add: ROB_positions_def ROB_allocate_def ROB_size_def)
  show "rob_tail rob \<notin> set (ROB_positions rob)"
  proof
    assume "rob_tail rob \<in> set (ROB_positions rob)"
    then obtain k where "k < rob_count rob"
      "(rob_head rob + k) mod ROB_size rob = (rob_head rob + rob_count rob) mod ROB_size rob"
      using t by (auto simp: ROB_positions_def)
    then show False using mod_add_inj [OF _ lt] by blast
  qed
  show "rob_tail rob < ROB_size rob" using lt t by simp
qed

lemma tomasulo_inv_fetch: "tomasulo_inv s \<Longrightarrow> tomasulo_inv (fetch instr s)"
  by (simp add: tomasulo_inv_def fetch_def producer_ok_def RAT_ok_def)

lemma commit_Inr:
  assumes "commit s = Inr s'"
  shows "s' = s \<or>
         (\<not> ROB_empty (ROB s) \<and> ready (ROB_get_entry (ROB s) (ROB_head_index (ROB s))) \<and>
          RS s' = RS s \<and> FUs s' = FUs s \<and> CDB s' = CDB s \<and> RST s' = RST s \<and>
          ROB s' = ROB_pop (ROB s) \<and>
          RAT s' =
            (if use_rd (rob_instr (ROB_get_entry (ROB s) (ROB_head_index (ROB s)))) \<and>
                RAT s (getRd (rob_instr (ROB_get_entry (ROB s) (ROB_head_index (ROB s))))) =
                  Some (ROB_head_index (ROB s))
             then (RAT s)(getRd (rob_instr (ROB_get_entry (ROB s) (ROB_head_index (ROB s)))) := None)
             else RAT s))"
proof (cases "\<not> ROB_empty (ROB s) \<and> ready (ROB_get_entry (ROB s) (ROB_head_index (ROB s)))")
  case False
  then have "s' = s" using assms by (auto simp: commit_def Let_def split: if_splits)
  then show ?thesis by simp
next
  case True
  then have ne: "\<not> ROB_empty (ROB s)" and rdy: "ready (ROB_get_entry (ROB s) (ROB_head_index (ROB s)))"
    by simp_all
  show ?thesis
    using assms True unfolding commit_ready [OF ne rdy]
    by (auto simp: bind_error_def split: if_splits)
qed

lemma tomasulo_inv_commit:
  assumes "tomasulo_inv s" "commit s = Inr s'"
  shows "tomasulo_inv s'"
proof -
  let ?h = "rob_head (ROB s)"
  let ?i = "rob_instr (ROB_get_entry (ROB s) (ROB_head_index (ROB s)))"
  from commit_Inr [OF assms(2)] show ?thesis
  proof
    assume "s' = s" then show ?thesis using assms(1) by simp
  next
    assume c: "\<not> ROB_empty (ROB s) \<and> ready (ROB_get_entry (ROB s) (ROB_head_index (ROB s))) \<and>
          RS s' = RS s \<and> FUs s' = FUs s \<and> CDB s' = CDB s \<and> RST s' = RST s \<and>
          ROB s' = ROB_pop (ROB s) \<and>
          RAT s' = (if use_rd ?i \<and> RAT s (getRd ?i) = Some (ROB_head_index (ROB s))
             then (RAT s)(getRd ?i := None) else RAT s)"
    have w: "wf_ROB (ROB s)" and len: "length (RST s) = ROB_size (ROB s)"
      and refs: "refs_ok (RS s)" and prod: "producer_ok s" and rat: "RAT_ok s"
      and hold: "holders_ok (RS s) (FUs s) (CDB s)"
      using assms(1) by (simp_all add: tomasulo_inv_def)
    have ne: "\<not> ROB_empty (ROB s)" using c by simp
    have rdy: "ready (rob_store (ROB s) ! ?h)"
      using c by (simp add: ROB_get_entry_def ROB_head_index_def)
    have pos: "ROB_positions (ROB s) = ?h # ROB_positions (ROB s')"
      using ROB_positions_hd [OF w ne] c by simp
    have dist: "?h \<notin> set (ROB_positions (ROB s'))"
      using ROB_positions_distinct [OF w] pos by simp
    have store: "rob_store (ROB s') = rob_store (ROB s)" using c by (simp add: ROB_pop_def)
    have sz: "ROB_size (ROB s') = ROB_size (ROB s)" using c by (simp add: ROB_pop_def ROB_size_def)
    have 1: "wf_ROB (ROB s')" using wf_ROB_pop [OF w ne] c by simp
    have 2: "length (RST s') = ROB_size (ROB s')" using len sz c by simp
    have 3: "refs_ok (RS s')" using refs c by simp
    have 4: "producer_ok s'"
      using prod c pos store by (simp add: producer_ok_def)
    have 5: "RAT_ok s'"
      unfolding RAT_ok_def
    proof (intro allI impI)
      fix r v
      assume a: "RAT s' r = Some v"
      then have old: "RAT s r = Some v"
        using c by (auto split: if_splits)
      from rat old have v: "0 \<le> v" "nat v \<in> set (ROB_positions (ROB s))"
        "use_rd (rob_instr (rob_store (ROB s) ! nat v))"
        "getRd (rob_instr (rob_store (ROB s) ! nat v)) = r"
        by (auto simp: RAT_ok_def)
      have "nat v \<noteq> ?h"
      proof
        assume e: "nat v = ?h"
        then have vh: "v = ROB_head_index (ROB s)" using v(1) by (simp add: ROB_head_index_def)
        have "use_rd ?i" "getRd ?i = r"
          using v(3,4) e by (simp_all add: ROB_get_entry_def ROB_head_index_def)
        then have "RAT s' r = None" using c old vh by simp
        then show False using a by simp
      qed
      then have "nat v \<in> set (ROB_positions (ROB s'))" using v(2) pos by simp
      then show "0 \<le> v \<and> nat v \<in> set (ROB_positions (ROB s')) \<and>
        use_rd (rob_instr (rob_store (ROB s') ! nat v)) \<and>
        getRd (rob_instr (rob_store (ROB s') ! nat v)) = r"
        using v store by simp
    qed
    have 6: "holders_ok (RS s') (FUs s') (CDB s')" using hold c by simp
    show ?thesis using 1 2 3 4 5 6 by (simp add: tomasulo_inv_def)
  qed
qed

lemma update_operands_fields [simp]:
  "rob_index (update_operands d e) = rob_index e"
  "running (update_operands d e) = running e"
  by (simp_all add: update_operands_def Let_def)

lemma update_operands_refs:
  "rs1_index (update_operands d e) = - 1 \<or> rs1_index (update_operands d e) = rs1_index e"
  "rs2_index (update_operands d e) = - 1 \<or> rs2_index (update_operands d e) = rs2_index e"
  by (auto simp: update_operands_def Let_def)

lemma tomasulo_inv_writeback:
  assumes "tomasulo_inv s"
  shows "tomasulo_inv (writeback s)"
proof (cases "CDB s")
  case None
  then show ?thesis using assms by (simp add: writeback_def)
next
  case (Some d)
  let ?k = "nat (cdb_rs_index d)"
  let ?p = "nat (cdb_rob_index d)"
  let ?wake = "\<lambda>entry. if valid entry then update_operands d entry else entry"
  let ?w = "map ?wake (RS s)"
  let ?s' = "writeback s"
  have w: "wf_ROB (ROB s)" and len: "length (RST s) = ROB_size (ROB s)"
    and refs: "refs_ok (RS s)" and prod: "producer_ok s" and rat: "RAT_ok s"
    and hold: "holders_ok (RS s) (FUs s) (CDB s)"
    using assms by (simp_all add: tomasulo_inv_def)
  have h: "0 \<le> cdb_rs_index d" "?k < length (RS s)" "valid (RS s ! ?k)"
    "rob_index (RS s ! ?k) = cdb_rob_index d"
    and others: "\<forall>fu\<in>set (FUs s). fu_busy fu \<longrightarrow> fu_rs_index fu \<noteq> cdb_rs_index d"
    using hold Some by (auto simp: holders_ok_def holds_def)
  have rs': "RS ?s' = ?w[?k := (?w ! ?k)\<lparr>valid := False, running := False\<rparr>]"
    using Some h(1) by (simp add: writeback_def RS_release_def)
  have rob': "ROB ?s' = ROB_update_cdb d (ROB s)" and rst': "RST ?s' = RST s"
    and rat': "RAT ?s' = RAT s" and fus': "FUs ?s' = FUs s" and cdb': "CDB ?s' = None"
    using Some by (simp_all add: writeback_def)
  have lenrs: "length (RS ?s') = length (RS s)" by (simp add: rs')
  have nth: "RS ?s' ! j = ?wake (RS s ! j)" if "j < length (RS s)" "j \<noteq> ?k" for j
    using that by (simp add: rs')
  have nthk: "\<not> valid (RS ?s' ! ?k)" using h(2) by (simp add: rs')
  have keep: "valid (RS ?s' ! j) \<and> rob_index (RS ?s' ! j) = rob_index (RS s ! j) \<and>
              running (RS ?s' ! j) = running (RS s ! j)"
    if "j < length (RS s)" "j \<noteq> ?k" "valid (RS s ! j)" for j
    using that by (simp add: nth)
  have store': "rob_store (ROB ?s') =
      (rob_store (ROB s))[?p := (rob_store (ROB s) ! ?p)\<lparr>ready := True, result := cdb_result d\<rparr>]"
    by (simp add: rob' ROB_update_cdb_def Let_def)
  have 1: "wf_ROB (ROB ?s')" using w by (simp add: rob' wf_ROB_update_cdb)
  have 2: "length (RST ?s') = ROB_size (ROB ?s')"
    using len by (simp add: rst' rob' ROB_update_cdb_def ROB_size_def Let_def)
  have 3: "refs_ok (RS ?s')"
    unfolding refs_ok_def
  proof (intro ballI impI)
    fix e assume e: "e \<in> set (RS ?s')" "valid e"
    then obtain j where j: "j < length (RS s)" "e = RS ?s' ! j"
      using lenrs by (auto simp: in_set_conv_nth)
    have jk: "j \<noteq> ?k" using e(2) j nthk by auto
    have vj: "valid (RS s ! j)" using e(2) j nth [OF j(1) jk] by (simp split: if_splits)
    have eq: "e = update_operands d (RS s ! j)" using j nth [OF j(1) jk] vj by simp
    have old: "ref_ok (RS s) (rs1_index (RS s ! j))" "ref_ok (RS s) (rs2_index (RS s ! j))"
      using refs vj j(1) by (auto simp: refs_ok_def)
    have up: "ref_ok (RS ?s') i" if "ref_ok (RS s) i" "i \<noteq> cdb_rs_index d" for i
    proof (cases "i = - 1")
      case True
      then show ?thesis by (simp add: ref_ok_def)
    next
      case False
      then have i: "0 \<le> i" "nat i < length (RS s)" "valid (RS s ! nat i)"
        using that(1) by (auto simp: ref_ok_def)
      have "nat i \<noteq> ?k" using that(2) i(1) h(1) by auto
      from keep [OF i(2) this i(3)] i lenrs show ?thesis by (simp add: ref_ok_def)
    qed
    have m1: "ref_ok (RS ?s') (- 1)" by (simp add: ref_ok_def)
    have n: "rs1_index e \<noteq> cdb_rs_index d" "rs2_index e \<noteq> cdb_rs_index d"
      using update_operands_no_ref [OF h(1), of "RS s ! j"] eq by simp_all
    show "ref_ok (RS ?s') (rs1_index e) \<and> ref_ok (RS ?s') (rs2_index e)"
      using update_operands_refs [of d "RS s ! j"] eq old up n m1 by metis
  qed
  have 4: "producer_ok ?s'"
    unfolding producer_ok_def
  proof (intro ballI impI)
    fix p assume p: "p \<in> set (ROB_positions (ROB ?s'))" "\<not> ready (rob_store (ROB ?s') ! p)"
    have pin: "p \<in> set (ROB_positions (ROB s))" using p(1) by (simp add: rob')
    have pl: "p < length (rob_store (ROB s))"
      using ROB_positions_less [OF w pin] by (simp add: ROB_size_def)
    have pp: "p \<noteq> ?p" using p(2) pl by (auto simp: store')
    then have nr: "\<not> ready (rob_store (ROB s) ! p)" using p(2) by (simp add: store')
    from prod pin nr have o: "0 \<le> RST s ! p" "nat (RST s ! p) < length (RS s)"
      "valid (RS s ! nat (RST s ! p))" "rob_index (RS s ! nat (RST s ! p)) = int p"
      by (auto simp: producer_ok_def)
    have "nat (RST s ! p) \<noteq> ?k"
    proof
      assume "nat (RST s ! p) = ?k"
      then have "int p = cdb_rob_index d" using o(4) h(4) by simp
      then show False using pp by simp
    qed
    from keep [OF o(2) this o(3)] o lenrs
    show "0 \<le> RST ?s' ! p \<and> nat (RST ?s' ! p) < length (RS ?s') \<and>
        valid (RS ?s' ! nat (RST ?s' ! p)) \<and> rob_index (RS ?s' ! nat (RST ?s' ! p)) = int p"
      by (simp add: rst')
  qed
  have instr: "rob_instr (rob_store (ROB ?s') ! v) = rob_instr (rob_store (ROB s) ! v)" for v
    by (cases "v = ?p"; cases "v < length (rob_store (ROB s))")
      (simp_all add: store' list_update_beyond)
  have 5: "RAT_ok ?s'"
    using rat by (simp add: RAT_ok_def rat' instr) (simp add: rob')
  have 6: "holders_ok (RS ?s') (FUs ?s') (CDB ?s')"
  proof -
    have "holds (RS ?s') (fu_rs_index fu) (fu_rob_index fu)"
      if "fu \<in> set (FUs s)" "fu_busy fu" for fu
    proof -
      from hold that have o: "0 \<le> fu_rs_index fu" "nat (fu_rs_index fu) < length (RS s)"
        "valid (RS s ! nat (fu_rs_index fu))" "running (RS s ! nat (fu_rs_index fu))"
        "rob_index (RS s ! nat (fu_rs_index fu)) = fu_rob_index fu"
        by (auto simp: holders_ok_def holds_def)
      have "nat (fu_rs_index fu) \<noteq> ?k" using others that o(1) h(1) by auto
      from keep [OF o(2) this o(3)] o lenrs show ?thesis by (simp add: holds_def)
    qed
    then show ?thesis using hold by (simp add: holders_ok_def fus' cdb')
  qed
  show ?thesis using 1 2 3 4 5 6 by (simp add: tomasulo_inv_def)
qed

lemma same_but_running_refl: "same_but_running rs rs"
proof -
  have "rs ! j = (rs ! j)\<lparr>running := running (rs ! j)\<rparr>" for j by simp
  then show ?thesis unfolding same_but_running_def by blast
qed

lemma same_but_running_trans:
  assumes "same_but_running rs2 rs1" "same_but_running rs1 rs0"
  shows "same_but_running rs2 rs0"
  unfolding same_but_running_def
proof (intro conjI allI impI)
  show "length rs2 = length rs0" using assms by (simp add: same_but_running_def)
next
  fix j assume j: "j < length rs0"
  then obtain b where b: "rs1 ! j = (rs0 ! j)\<lparr>running := b\<rparr>"
    using assms(2) by (auto simp: same_but_running_def)
  from j obtain b' where "rs2 ! j = (rs1 ! j)\<lparr>running := b'\<rparr>"
    using assms by (auto simp: same_but_running_def)
  then have "rs2 ! j = (rs0 ! j)\<lparr>running := b'\<rparr>" using b by simp
  then show "\<exists>b. rs2 ! j = (rs0 ! j)\<lparr>running := b\<rparr>" by blast
qed

lemma same_but_running_nth:
  assumes "same_but_running rs' rs" "j < length rs"
  shows "valid (rs' ! j) = valid (rs ! j)" "rob_index (rs' ! j) = rob_index (rs ! j)"
    "rs1_index (rs' ! j) = rs1_index (rs ! j)" "rs2_index (rs' ! j) = rs2_index (rs ! j)"
proof -
  from assms obtain b where "rs' ! j = (rs ! j)\<lparr>running := b\<rparr>"
    by (auto simp: same_but_running_def)
  then show "valid (rs' ! j) = valid (rs ! j)" "rob_index (rs' ! j) = rob_index (rs ! j)"
    "rs1_index (rs' ! j) = rs1_index (rs ! j)" "rs2_index (rs' ! j) = rs2_index (rs ! j)"
    by simp_all
qed

lemma same_but_running_ref_ok:
  assumes "same_but_running rs' rs" "ref_ok rs i"
  shows "ref_ok rs' i"
proof (cases "i = - 1")
  case True
  then show ?thesis by (simp add: ref_ok_def)
next
  case False
  then have i: "0 \<le> i" "nat i < length rs" "valid (rs ! nat i)"
    using assms(2) by (auto simp: ref_ok_def)
  have "length rs' = length rs" using assms(1) by (simp add: same_but_running_def)
  then show ?thesis using i same_but_running_nth(1) [OF assms(1) i(2)] by (simp add: ref_ok_def)
qed

lemma same_but_running_refs_ok:
  assumes "same_but_running rs' rs" "refs_ok rs"
  shows "refs_ok rs'"
  unfolding refs_ok_def
proof (intro ballI impI)
  fix e assume e: "e \<in> set rs'" "valid e"
  have len: "length rs' = length rs" using assms(1) by (simp add: same_but_running_def)
  from e(1) obtain j where j: "j < length rs" "e = rs' ! j"
    using len by (auto simp: in_set_conv_nth)
  have "valid (rs ! j)" using e(2) j same_but_running_nth(1) [OF assms(1) j(1)] by simp
  then have "ref_ok rs (rs1_index (rs ! j))" "ref_ok rs (rs2_index (rs ! j))"
    using assms(2) j(1) by (auto simp: refs_ok_def)
  then show "ref_ok rs' (rs1_index e) \<and> ref_ok rs' (rs2_index e)"
    using same_but_running_nth(3,4) [OF assms(1) j(1)] j(2)
      same_but_running_ref_ok [OF assms(1)] by simp
qed

lemma FU_execute_fields [simp]:
  "fu_busy (FU_execute cfg fu) = fu_busy fu"
  "fu_rs_index (FU_execute cfg fu) = fu_rs_index fu"
  "fu_rob_index (FU_execute cfg fu) = fu_rob_index fu"
  by (simp_all add: FU_execute_def)

lemma holders_ok_advance:
  assumes "holders_ok rs fus cdb"
  shows "holders_ok rs (map (FU_execute cfg) fus) cdb"
  using assms FUs_wf_advance [of fus cfg]
  by (auto simp: holders_ok_def)

lemma holders_ok_drain:
  assumes "holders_ok rs fus cdb"
  shows "holders_ok rs (fst (drain_FUs fus cdb)) (snd (drain_FUs fus cdb))"
proof (cases "\<forall>fu\<in>set fus. \<not> fu_done fu")
  case True
  then show ?thesis using assms drain_FUs_none [OF True] by simp
next
  case False
  then obtain fu where "fu \<in> set fus" "fu_done fu" by blast
  then obtain j where j: "j < length fus" "fu_done (fus ! j)"
    unfolding in_set_conv_nth by blast
  from first_done_exists [OF j(2)] obtain k where
    k': "k \<le> j" and k: "fu_done (fus ! k)" "\<forall>i<k. \<not> fu_done (fus ! i)"
    by blast
  have kl: "k < length fus" using k' j(1) by simp
  let ?fus' = "fus[k := FU_clear (fus ! k)]"
  let ?d = "FU_get_output (fus ! k)"
  have dr: "drain_FUs fus cdb = (?fus', Some ?d)"
    using drain_FUs_first [OF kl k] by (simp add: CDB_push_def)
  have wf: "FUs_wf fus" and hb: "\<forall>fu\<in>set fus. fu_busy fu \<longrightarrow> holds rs (fu_rs_index fu) (fu_rob_index fu)"
    and uniq: "\<forall>f<length fus. \<forall>f'<length fus.
         fu_busy (fus ! f) \<and> fu_busy (fus ! f') \<and> fu_rs_index (fus ! f) = fu_rs_index (fus ! f')
           \<longrightarrow> f = f'"
    using assms by (simp_all add: holders_ok_def)
  have kb: "fu_busy (fus ! k)" using wf k(1) kl by (auto simp: FUs_wf_def)
  have nth: "?fus' ! f = (if f = k then FU_clear (fus ! k) else fus ! f)" if "f < length fus" for f
    using that by simp
  have mem: "fu \<in> set fus \<and> fu \<noteq> fus ! k \<or> fu = FU_clear (fus ! k)" if "fu \<in> set ?fus'" "fu_busy fu" for fu
  proof -
    from that(1) obtain f where f: "f < length fus" "fu = ?fus' ! f"
      by (auto simp: in_set_conv_nth)
    show ?thesis
    proof (cases "f = k")
      case True
      then show ?thesis using f by simp
    next
      case False
      then have e: "fu = fus ! f" using f by simp
      have "fus ! f \<noteq> fus ! k"
      proof
        assume "fus ! f = fus ! k"
        then have "f = k" using uniq f(1) kl kb that(2) e by metis
        then show False using False by simp
      qed
      then show ?thesis using e f(1) by simp
    qed
  qed
  have nb: "\<not> fu_busy (FU_clear (fus ! k))" by (simp add: FU_clear_def)
  have 1: "FUs_wf ?fus'"
    using wf by (auto simp: FUs_wf_def FU_clear_def dest!: set_update_subset_insert [THEN subsetD])
  have 2: "\<forall>fu\<in>set ?fus'. fu_busy fu \<longrightarrow> holds rs (fu_rs_index fu) (fu_rob_index fu)"
    using mem hb nb by blast
  have 3: "\<forall>f<length ?fus'. \<forall>f'<length ?fus'.
         fu_busy (?fus' ! f) \<and> fu_busy (?fus' ! f') \<and> fu_rs_index (?fus' ! f) = fu_rs_index (?fus' ! f')
           \<longrightarrow> f = f'"
  proof (intro allI impI)
    fix f f' assume f: "f < length ?fus'" "f' < length ?fus'"
      "fu_busy (?fus' ! f) \<and> fu_busy (?fus' ! f') \<and> fu_rs_index (?fus' ! f) = fu_rs_index (?fus' ! f')"
    have "f \<noteq> k" "f' \<noteq> k" using f nb by (auto simp: nth_list_update)
    then show "f = f'" using f uniq by (simp add: nth_list_update)
  qed
  have 4: "holds rs (cdb_rs_index ?d) (cdb_rob_index ?d)"
    using hb kb kl by (simp add: FU_get_output_def)
  have 5: "\<forall>fu\<in>set ?fus'. fu_busy fu \<longrightarrow> fu_rs_index fu \<noteq> cdb_rs_index ?d"
  proof (intro ballI impI)
    fix fu assume fu: "fu \<in> set ?fus'" "fu_busy fu"
    then obtain f where f: "f < length fus" "fu = ?fus' ! f"
      by (auto simp: in_set_conv_nth)
    have fk: "f \<noteq> k" using fu(2) f nb by auto
    then have e: "fu = fus ! f" using f by simp
    show "fu_rs_index fu \<noteq> cdb_rs_index ?d"
    proof
      assume "fu_rs_index fu = cdb_rs_index ?d"
      then have "fu_rs_index (fus ! f) = fu_rs_index (fus ! k)"
        using e by (simp add: FU_get_output_def)
      then have "f = k" using uniq f(1) kl kb fu(2) e by metis
      then show False using fk by simp
    qed
  qed
  show ?thesis using 1 2 3 4 5 by (simp add: dr holders_ok_def)
qed

lemma schedule_entry_cases:
  assumes "schedule_entry cfg i st = Inr st'"
  shows "st' = st \<or>
         (valid (fst st ! i) \<and> \<not> running (fst st ! i) \<and>
          getFUType (rs_instr (fst st ! i)) < length (snd st) \<and>
          \<not> fu_busy (snd st ! getFUType (rs_instr (fst st ! i))) \<and>
          st' = ((fst st)[i := (fst st ! i)\<lparr>running := True\<rparr>],
                 (snd st)[getFUType (rs_instr (fst st ! i)) :=
                    FU_issue cfg (rs_instr (fst st ! i)) (rob_index (fst st ! i)) (int i)
                      (rs1_data (fst st ! i)) (rs2_data (fst st ! i))
                      (snd st ! getFUType (rs_instr (fst st ! i)))]))"
  using assms by (auto simp: schedule_entry_def Let_def split: if_splits)

lemma holds_running_update:
  assumes "holds rs k p" "i < length rs"
  shows "holds (rs[i := (rs ! i)\<lparr>running := True\<rparr>]) k p"
  using assms by (cases "nat k = i") (auto simp: holds_def)

lemma schedule_entry_inv:
  assumes "holders_ok (fst st) (snd st) cdb" "i < length (fst st)"
    "schedule_entry cfg i st = Inr st'"
  shows "holders_ok (fst st') (snd st') cdb \<and> same_but_running (fst st') (fst st)"
proof -
  from schedule_entry_cases [OF assms(3)] show ?thesis
  proof
    assume "st' = st"
    then show ?thesis using assms(1) by (simp add: same_but_running_refl)
  next
    let ?rs = "fst st" and ?fus = "snd st"
    let ?e = "?rs ! i"
    let ?t = "getFUType (rs_instr ?e)"
    let ?N = "FU_issue cfg (rs_instr ?e) (rob_index ?e) (int i) (rs1_data ?e) (rs2_data ?e) (?fus ! ?t)"
    let ?rs' = "?rs[i := ?e\<lparr>running := True\<rparr>]"
    let ?fus' = "?fus[?t := ?N]"
    assume a: "valid ?e \<and> \<not> running ?e \<and> ?t < length ?fus \<and> \<not> fu_busy (?fus ! ?t) \<and>
               st' = (?rs', ?fus')"
    then have v: "valid ?e" and nr: "\<not> running ?e" and tl: "?t < length ?fus"
      and nb: "\<not> fu_busy (?fus ! ?t)" and st': "st' = (?rs', ?fus')"
      by simp_all
    have wf: "FUs_wf ?fus"
      and hb: "\<forall>fu\<in>set ?fus. fu_busy fu \<longrightarrow> holds ?rs (fu_rs_index fu) (fu_rob_index fu)"
      and uniq: "\<forall>f<length ?fus. \<forall>f'<length ?fus.
         fu_busy (?fus ! f) \<and> fu_busy (?fus ! f') \<and> fu_rs_index (?fus ! f) = fu_rs_index (?fus ! f')
           \<longrightarrow> f = f'"
      and cd: "\<forall>d. cdb = Some d \<longrightarrow> holds ?rs (cdb_rs_index d) (cdb_rob_index d) \<and>
         (\<forall>fu\<in>set ?fus. fu_busy fu \<longrightarrow> fu_rs_index fu \<noteq> cdb_rs_index d)"
      using assms(1) by (simp_all add: holders_ok_def)
    have N: "fu_busy ?N" "\<not> fu_done ?N" "fu_rs_index ?N = int i" "fu_rob_index ?N = rob_index ?e"
      by (simp_all add: FU_issue_def)
    have hN: "holds ?rs' (int i) (rob_index ?e)"
      using assms(2) v by (simp add: holds_def)
    have not_i: "k \<noteq> int i" if "holds ?rs k p" for k p
      using that nr by (auto simp: holds_def)
    have mem: "fu = ?N \<or> fu \<in> set ?fus" if "fu \<in> set ?fus'" for fu
      using that set_update_subset_insert [of ?fus ?t ?N] by auto
    have 1: "FUs_wf ?fus'"
      using wf N mem by (auto simp: FUs_wf_def)
    have 2: "\<forall>fu\<in>set ?fus'. fu_busy fu \<longrightarrow> holds ?rs' (fu_rs_index fu) (fu_rob_index fu)"
    proof (intro ballI impI)
      fix fu assume fu: "fu \<in> set ?fus'" "fu_busy fu"
      from mem [OF fu(1)] show "holds ?rs' (fu_rs_index fu) (fu_rob_index fu)"
      proof
        assume "fu = ?N" then show ?thesis using hN N by simp
      next
        assume "fu \<in> set ?fus"
        then have "holds ?rs (fu_rs_index fu) (fu_rob_index fu)" using hb fu(2) by simp
        then show ?thesis using holds_running_update [OF _ assms(2)] by simp
      qed
    qed
    have old_rs: "fu_rs_index (?fus ! f) \<noteq> int i" if "f < length ?fus" "fu_busy (?fus ! f)" for f
    proof -
      have "holds ?rs (fu_rs_index (?fus ! f)) (fu_rob_index (?fus ! f))"
        using hb that by simp
      then show ?thesis using not_i by blast
    qed
    have 3: "\<forall>f<length ?fus'. \<forall>f'<length ?fus'.
         fu_busy (?fus' ! f) \<and> fu_busy (?fus' ! f') \<and> fu_rs_index (?fus' ! f) = fu_rs_index (?fus' ! f')
           \<longrightarrow> f = f'"
    proof (intro allI impI)
      fix f f' assume f: "f < length ?fus'" "f' < length ?fus'"
        "fu_busy (?fus' ! f) \<and> fu_busy (?fus' ! f') \<and> fu_rs_index (?fus' ! f) = fu_rs_index (?fus' ! f')"
      show "f = f'"
      proof (cases "f = ?t")
        case True
        show ?thesis
        proof (cases "f' = ?t")
          case True
          then show ?thesis using \<open>f = ?t\<close> by simp
        next
          case False
          then have "?fus' ! f' = ?fus ! f'" by simp
          then have "fu_rs_index (?fus ! f') = int i" "fu_busy (?fus ! f')"
            using f True N tl by simp_all
          then show ?thesis using old_rs [of f'] f(2) by simp
        qed
      next
        case False
        then have e: "?fus' ! f = ?fus ! f" by simp
        show ?thesis
        proof (cases "f' = ?t")
          case True
          then have "fu_rs_index (?fus ! f) = int i" "fu_busy (?fus ! f)"
            using f e N tl by simp_all
          then show ?thesis using old_rs [of f] f(1) by simp
        next
          case False
          then have "?fus' ! f' = ?fus ! f'" by simp
          then show ?thesis using f e uniq by simp
        qed
      qed
    qed
    have 4: "\<forall>d. cdb = Some d \<longrightarrow> holds ?rs' (cdb_rs_index d) (cdb_rob_index d) \<and>
         (\<forall>fu\<in>set ?fus'. fu_busy fu \<longrightarrow> fu_rs_index fu \<noteq> cdb_rs_index d)"
    proof (intro allI impI)
      fix d assume d: "cdb = Some d"
      then have hd: "holds ?rs (cdb_rs_index d) (cdb_rob_index d)"
        and od: "\<forall>fu\<in>set ?fus. fu_busy fu \<longrightarrow> fu_rs_index fu \<noteq> cdb_rs_index d"
        using cd by simp_all
      have "cdb_rs_index d \<noteq> int i" using not_i [OF hd] .
      then have "\<forall>fu\<in>set ?fus'. fu_busy fu \<longrightarrow> fu_rs_index fu \<noteq> cdb_rs_index d"
      proof (intro ballI impI)
        fix fu assume ni: "cdb_rs_index d \<noteq> int i" and fu: "fu \<in> set ?fus'" "fu_busy fu"
        from mem [OF fu(1)] show "fu_rs_index fu \<noteq> cdb_rs_index d"
        proof
          assume "fu = ?N" then show ?thesis using N(3) ni by simp
        next
          assume "fu \<in> set ?fus" then show ?thesis using od fu(2) by simp
        qed
      qed
      then show "holds ?rs' (cdb_rs_index d) (cdb_rob_index d) \<and>
         (\<forall>fu\<in>set ?fus'. fu_busy fu \<longrightarrow> fu_rs_index fu \<noteq> cdb_rs_index d)"
        using holds_running_update [OF hd assms(2)] by simp
    qed
    have 5: "same_but_running ?rs' ?rs"
      unfolding same_but_running_def
    proof (intro conjI allI impI)
      show "length ?rs' = length ?rs" by simp
    next
      fix j assume "j < length ?rs"
      show "\<exists>b. ?rs' ! j = (?rs ! j)\<lparr>running := b\<rparr>"
      proof (cases "j = i")
        case True
        then have "?rs' ! j = (?rs ! j)\<lparr>running := True\<rparr>" using assms(2) by simp
        then show ?thesis by blast
      next
        case False
        then have "?rs' ! j = (?rs ! j)\<lparr>running := running (?rs ! j)\<rparr>" by simp
        then show ?thesis by blast
      qed
    qed
    show ?thesis using 1 2 3 4 5 by (simp add: st' holders_ok_def)
  qed
qed

lemma schedule_inv:
  assumes "holders_ok (fst st) (snd st) cdb" "\<forall>i\<in>set is. i < length (fst st)"
    "schedule cfg is st = Inr st'"
  shows "holders_ok (fst st') (snd st') cdb \<and> same_but_running (fst st') (fst st)"
  using assms
proof (induction "is" arbitrary: st)
  case Nil
  then show ?case by (simp add: same_but_running_refl)
next
  case (Cons i "is")
  then obtain st1 where 1: "schedule_entry cfg i st = Inr st1" "schedule cfg is st1 = Inr st'"
    by (auto simp: bind_error_def split: sum.splits)
  have i: "i < length (fst st)" using Cons.prems(2) by simp
  from schedule_entry_inv [OF Cons.prems(1) i 1(1)]
  have h1: "holders_ok (fst st1) (snd st1) cdb" and s1: "same_but_running (fst st1) (fst st)"
    by simp_all
  have "\<forall>i\<in>set is. i < length (fst st1)"
    using Cons.prems(2) s1 by (simp add: same_but_running_def)
  from Cons.IH [OF h1 this 1(2)]
  show ?case using same_but_running_trans [OF _ s1] by blast
qed

lemma tomasulo_inv_execute:
  assumes "tomasulo_inv s" "execute cfg s = Inr s'"
  shows "tomasulo_inv s'"
proof -
  let ?adv = "map (FU_execute cfg) (FUs s)"
  let ?dr = "drain_FUs ?adv (CDB s)"
  from execute_Inr [OF assms(2)] obtain st where
    st: "schedule cfg [0..<length (RS s)] (RS s, fst ?dr) = Inr st"
    and s': "s' = s\<lparr>RS := fst st, FUs := snd st, CDB := snd ?dr\<rparr>"
    by blast
  have w: "wf_ROB (ROB s)" and len: "length (RST s) = ROB_size (ROB s)"
    and refs: "refs_ok (RS s)" and prod: "producer_ok s" and rat: "RAT_ok s"
    and hold: "holders_ok (RS s) (FUs s) (CDB s)"
    using assms(1) by (simp_all add: tomasulo_inv_def)
  have h0: "holders_ok (fst (RS s, fst ?dr)) (snd (RS s, fst ?dr)) (snd ?dr)"
    using holders_ok_drain [OF holders_ok_advance [OF hold, of cfg]] by simp
  have r0: "\<forall>i\<in>set [0..<length (RS s)]. i < length (fst (RS s, fst ?dr))" by simp
  from schedule_inv [OF h0 r0 st]
  have h: "holders_ok (fst st) (snd st) (snd ?dr)" and sb: "same_but_running (fst st) (RS s)"
    by simp_all
  have lenrs: "length (fst st) = length (RS s)" using sb by (simp add: same_but_running_def)
  have 3: "refs_ok (RS s')" using same_but_running_refs_ok [OF sb refs] by (simp add: s')
  have 4: "producer_ok s'"
    unfolding producer_ok_def
  proof (intro ballI impI)
    fix p assume p: "p \<in> set (ROB_positions (ROB s'))" "\<not> ready (rob_store (ROB s') ! p)"
    then have o: "0 \<le> RST s ! p" "nat (RST s ! p) < length (RS s)"
      "valid (RS s ! nat (RST s ! p))" "rob_index (RS s ! nat (RST s ! p)) = int p"
      using prod by (auto simp: producer_ok_def s')
    show "0 \<le> RST s' ! p \<and> nat (RST s' ! p) < length (RS s') \<and>
        valid (RS s' ! nat (RST s' ! p)) \<and> rob_index (RS s' ! nat (RST s' ! p)) = int p"
      using o lenrs same_but_running_nth(1,2) [OF sb o(2)] by (simp add: s')
  qed
  have 5: "RAT_ok s'" using rat by (simp add: RAT_ok_def s')
  show ?thesis using w len 3 4 5 h by (simp add: tomasulo_inv_def s')
qed

lemma issue_CDB:
  assumes "issue s = Inr s'"
  shows "CDB s' = CDB s"
proof (cases "issue_queue s = [] \<or> RS_full (RS s) \<or> ROB_full (ROB s)")
  case True
  then have "s' = s" using assms by (auto simp: issue_def issue_with_def Let_def split: if_splits)
  then show ?thesis by simp
next
  case False
  then show ?thesis
    using assms
    by (auto simp: issue_def issue_with_def Let_def bind_error_def
        split: sum.splits prod.splits if_splits)
qed

lemma get_operand_ref:
  assumes "get_operand s u r = Inr (d, i)"
  shows "i = - 1 \<or>
         (\<exists>v. RAT s r = Some v \<and> \<not> ready (rob_store (ROB s) ! nat v) \<and> i = RST s ! nat v)"
  using assms
  by (auto simp: get_operand_def RAT_exists_def RAT_get_def ROB_get_entry_def Let_def
      split: if_splits option.splits)

lemma tomasulo_inv_issue:
  assumes "tomasulo_inv s" "issue s = Inr s'"
  shows "tomasulo_inv s'"
proof (cases "issue_queue s = [] \<or> RS_full (RS s) \<or> ROB_full (ROB s)")
  case True
  then have "s' = s" using assms(2) by (auto simp: issue_def issue_with_def Let_def split: if_splits)
  then show ?thesis using assms(1) by simp
next
  case False
  then obtain instr q where q: "issue_queue s = instr # q"
    by (cases "issue_queue s") auto
  have nf: "\<not> RS_full (RS s)" "\<not> ROB_full (ROB s)" using False by simp_all
  from nf obtain k where k: "RS_free_slot (RS s) = Some k"
    using RS_free_slot_None [of "RS s"] by auto
  have kl: "k < length (RS s)" and kv: "\<not> valid (RS s ! k)"
    using RS_free_slot_Some [OF k] by simp_all
  let ?t = "rob_tail (ROB s)"
  from issue_Inr_new_entry [OF q nf assms(2) k] obtain d1 i1 d2 i2 where
    o1: "get_operand s (use_rs1 instr) (getRs1 instr) = Inr (d1, i1)" and
    o2: "get_operand s (use_rs2 instr) (getRs2 instr) = Inr (d2, i2)" and
    rs': "RS s' = (RS s)[k := \<lparr>valid = True, running = False, rob_index = int ?t,
                           rs1_index = i1, rs2_index = i2, rs1_data = d1, rs2_data = d2,
                           rs_instr = instr\<rparr>]" and
    rst': "RST s' = (RST s)[?t := int k]" and
    rob': "ROB s' = snd (ROB_allocate instr (ROB s))" and
    rat': "RAT s' = (if use_rd instr then (RAT s)(getRd instr \<mapsto> int ?t) else RAT s)"
    by blast
  let ?new = "\<lparr>valid = True, running = False, rob_index = int ?t,
                           rs1_index = i1, rs2_index = i2, rs1_data = d1, rs2_data = d2,
                           rs_instr = instr\<rparr>"
  have fus': "FUs s' = FUs s" and cdb': "CDB s' = CDB s"
    using issue_FUs [OF assms(2)] issue_CDB [OF assms(2)] by simp_all
  have w: "wf_ROB (ROB s)" and len: "length (RST s) = ROB_size (ROB s)"
    and refs: "refs_ok (RS s)" and prod: "producer_ok s" and rat: "RAT_ok s"
    and hold: "holders_ok (RS s) (FUs s) (CDB s)"
    using assms(1) by (simp_all add: tomasulo_inv_def)
  have pos: "ROB_positions (ROB s') = ROB_positions (ROB s) @ [?t]"
    and tnew: "?t \<notin> set (ROB_positions (ROB s))" and tlt: "?t < ROB_size (ROB s)"
    using ROB_positions_allocate [OF w nf(2)] by (simp_all add: rob')
  have store': "rob_store (ROB s') =
      (rob_store (ROB s))[?t := \<lparr>rob_instr = instr, ready = False, result = 0\<rparr>]"
    using nf(2) by (simp add: rob' ROB_allocate_def)
  have sz: "ROB_size (ROB s') = ROB_size (ROB s)"
    using nf(2) by (simp add: rob' ROB_allocate_def ROB_size_def)
  have tl': "?t < length (rob_store (ROB s))" using tlt by (simp add: ROB_size_def)
  have lenrs: "length (RS s') = length (RS s)" by (simp add: rs')
  have keep: "RS s' ! j = RS s ! j" if "valid (RS s ! j)" for j
    using that kv by (cases "j = k") (simp_all add: rs')
  have newk: "RS s' ! k = ?new" using kl by (simp add: rs')
  have ref_keep: "ref_ok (RS s') i" if "ref_ok (RS s) i" for i
    using that keep lenrs by (auto simp: ref_ok_def)
  have ref_new: "ref_ok (RS s') i" if "get_operand s u r = Inr (d, i)" for u r d i
  proof -
    from get_operand_ref [OF that] show ?thesis
    proof
      assume "i = - 1" then show ?thesis by (simp add: ref_ok_def)
    next
      assume "\<exists>v. RAT s r = Some v \<and> \<not> ready (rob_store (ROB s) ! nat v) \<and> i = RST s ! nat v"
      then obtain v where v: "RAT s r = Some v" "\<not> ready (rob_store (ROB s) ! nat v)"
        "i = RST s ! nat v" by blast
      from rat v(1) have "nat v \<in> set (ROB_positions (ROB s))" by (auto simp: RAT_ok_def)
      with prod v(2) have "0 \<le> RST s ! nat v" "nat (RST s ! nat v) < length (RS s)"
        "valid (RS s ! nat (RST s ! nat v))"
        by (auto simp: producer_ok_def)
      then have "ref_ok (RS s) i" using v(3) by (simp add: ref_ok_def)
      then show ?thesis by (rule ref_keep)
    qed
  qed
  have 1: "wf_ROB (ROB s')" using wf_ROB_allocate [OF w nf(2)] by (simp add: rob')
  have 2: "length (RST s') = ROB_size (ROB s')" using len sz by (simp add: rst')
  have 3: "refs_ok (RS s')"
    unfolding refs_ok_def
  proof (intro ballI impI)
    fix e assume e: "e \<in> set (RS s')" "valid e"
    have "e = ?new \<or> e \<in> set (RS s)"
      using e(1) set_update_subset_insert [of "RS s" k ?new] by (auto simp: rs')
    then show "ref_ok (RS s') (rs1_index e) \<and> ref_ok (RS s') (rs2_index e)"
    proof
      assume "e = ?new"
      then show ?thesis using ref_new [OF o1] ref_new [OF o2] by simp
    next
      assume "e \<in> set (RS s)"
      then have "ref_ok (RS s) (rs1_index e)" "ref_ok (RS s) (rs2_index e)"
        using refs e(2) by (auto simp: refs_ok_def)
      then show ?thesis using ref_keep by simp
    qed
  qed
  have 4: "producer_ok s'"
    unfolding producer_ok_def
  proof (intro ballI impI)
    fix p assume p: "p \<in> set (ROB_positions (ROB s'))" "\<not> ready (rob_store (ROB s') ! p)"
    show "0 \<le> RST s' ! p \<and> nat (RST s' ! p) < length (RS s') \<and>
        valid (RS s' ! nat (RST s' ! p)) \<and> rob_index (RS s' ! nat (RST s' ! p)) = int p"
    proof (cases "p = ?t")
      case True
      then have "RST s' ! p = int k" using tlt len by (simp add: rst')
      then show ?thesis using True kl newk lenrs by simp
    next
      case False
      then have pin: "p \<in> set (ROB_positions (ROB s))" using p(1) pos by simp
      have nr: "\<not> ready (rob_store (ROB s) ! p)" using p(2) False by (simp add: store')
      from prod pin nr have o: "0 \<le> RST s ! p" "nat (RST s ! p) < length (RS s)"
        "valid (RS s ! nat (RST s ! p))" "rob_index (RS s ! nat (RST s ! p)) = int p"
        by (auto simp: producer_ok_def)
      have "RST s' ! p = RST s ! p" using False by (simp add: rst')
      then show ?thesis using o keep [OF o(3)] lenrs by simp
    qed
  qed
  have 5: "RAT_ok s'"
    unfolding RAT_ok_def
  proof (intro allI impI)
    fix r v assume a: "RAT s' r = Some v"
    show "0 \<le> v \<and> nat v \<in> set (ROB_positions (ROB s')) \<and>
        use_rd (rob_instr (rob_store (ROB s') ! nat v)) \<and>
        getRd (rob_instr (rob_store (ROB s') ! nat v)) = r"
    proof (cases "use_rd instr \<and> r = getRd instr")
      case True
      then have "v = int ?t" using a by (simp add: rat')
      then show ?thesis using True tl' by (simp add: pos store')
    next
      case False
      then have old: "RAT s r = Some v" using a by (auto simp: rat' split: if_splits)
      from rat old have v: "0 \<le> v" "nat v \<in> set (ROB_positions (ROB s))"
        "use_rd (rob_instr (rob_store (ROB s) ! nat v))"
        "getRd (rob_instr (rob_store (ROB s) ! nat v)) = r"
        by (auto simp: RAT_ok_def)
      have "nat v \<noteq> ?t" using v(2) tnew by auto
      then show ?thesis using v by (simp add: pos store')
    qed
  qed
  have hk: "holds (RS s') kk p" if "holds (RS s) kk p" for kk p
    using that keep [of "nat kk"] lenrs by (auto simp: holds_def)
  have 6: "holders_ok (RS s') (FUs s') (CDB s')"
    using hold hk by (auto simp: holders_ok_def fus' cdb')
  show ?thesis using 1 2 3 4 5 6 by (simp add: tomasulo_inv_def)
qed

lemma tomasulo_inv_init: "tomasulo_inv (init_core rob_n rs_n fu_n regs)"
  by (simp add: tomasulo_inv_def init_core_def empty_ROB_def wf_ROB_def ROB_size_def
      refs_ok_def free_RS_entry_def producer_ok_def ROB_positions_def RAT_ok_def
      holders_ok_def FUs_wf_def idle_FU_def)

lemma tomasulo_inv_step:
  assumes "tomasulo_inv s" "step cfg a s = Inr s'"
  shows "tomasulo_inv s'"
proof (cases a)
  case (Fetch instr)
  then show ?thesis using assms tomasulo_inv_fetch by auto
next
  case IssuePhase
  then show ?thesis using assms tomasulo_inv_issue by auto
next
  case ExecutePhase
  then show ?thesis using assms tomasulo_inv_execute by auto
next
  case WritebackPhase
  then show ?thesis using assms tomasulo_inv_writeback by auto
next
  case CommitPhase
  then show ?thesis using assms tomasulo_inv_commit by auto
qed

lemma tomasulo_inv_run:
  assumes "tomasulo_inv s" "run cfg acts s = Inr s'"
  shows "tomasulo_inv s'"
  using assms
proof (induction acts arbitrary: s)
  case Nil
  then show ?case by simp
next
  case (Cons a acts)
  then obtain s1 where s1: "step cfg a s = Inr s1" "run cfg acts s1 = Inr s'"
    by (auto simp: bind_error_def split: sum.splits)
  from Cons.IH [OF tomasulo_inv_step [OF Cons.prems(1) s1(1)] s1(2)] show ?case .
qed

lemma issue_fills_free_slot:
  assumes "issue s = Inr s'" "k < length (RS s)" "RS s' ! k \<noteq> RS s ! k"
  shows "\<not> valid (RS s ! k)"
proof (cases "issue_queue s = [] \<or> RS_full (RS s) \<or> ROB_full (ROB s)")
  case True
  then have "s' = s" using assms(1) by (auto simp: issue_def issue_with_def Let_def split: if_splits)
  then show ?thesis using assms(3) by simp
next
  case False
  then obtain instr q where q: "issue_queue s = instr # q"
    by (cases "issue_queue s") auto
  from False obtain k0 where k0: "RS_free_slot (RS s) = Some k0"
    using RS_free_slot_None [of "RS s"] by auto
  from issue_Inr_new_entry [OF q _ _ assms(1) k0] False obtain e where
    "RS s' = (RS s)[k0 := e]" by auto
  then have "k = k0" using assms(3) by (cases "k = k0") simp_all
  then show ?thesis using RS_free_slot_Some [OF k0] by simp
qed

lemma refs_ok_free_slot:
  assumes "refs_ok rs" "k < length rs" "\<not> valid (rs ! k)" "e \<in> set rs" "valid e"
  shows "rs1_index e \<noteq> int k \<and> rs2_index e \<noteq> int k"
  using assms by (auto simp: refs_ok_def ref_ok_def)

lemma tomasulo_inv_init_regs:
  "tomasulo_inv ((init_core rob_n rs_n fu_n regs)\<lparr>reg_file := rf\<rparr>)"
  using tomasulo_inv_init [of rob_n rs_n fu_n regs]
  by (simp add: tomasulo_inv_def producer_ok_def RAT_ok_def)

section \<open>Completed units reach the bus\<close>

text \<open>
  An execute that starts with the bus free loads it with the output of the first unit,
  in scan order, that has completed, and leaves every other completed unit as it is.
\<close>

lemma execute_drains_first_completed:
  fixes cfg :: config and s :: core
  defines "adv \<equiv> map (FU_execute cfg) (FUs s)"
  assumes "CDB s = None" and "FUs_wf (FUs s)" and "execute cfg s = Inr s'"
  shows "((\<forall>fu\<in>set adv. \<not> fu_done fu) \<longrightarrow> CDB s' = None) \<and>
         (\<forall>k<length adv. fu_done (adv ! k) \<and> (\<forall>i<k. \<not> fu_done (adv ! i)) \<longrightarrow>
            CDB s' = Some (FU_get_output (adv ! k)) \<and> \<not> fu_done (FUs s' ! k) \<and>
            (\<forall>j<length adv. j \<noteq> k \<and> fu_done (adv ! j) \<longrightarrow>
               FUs s' ! j = adv ! j \<and> FU_execute cfg (FUs s' ! j) = FUs s' ! j)) \<and>
         length (FUs s') = length (FUs s) \<and> FUs_wf (FUs s') \<and>
         (\<forall>a t t'. a \<noteq> ExecutePhase \<and> step cfg a t = Inr t' \<longrightarrow> FUs t' = FUs t) \<and>
         (\<forall>t. CDB (writeback t) = None)"
proof (intro conjI allI impI)
  assume "\<forall>fu\<in>set adv. \<not> fu_done fu"
  then show "CDB s' = None"
    using execute_none_completed [OF assms(2,4)] by (simp add: adv_def)
next
  fix k
  assume k: "k < length adv" "fu_done (adv ! k) \<and> (\<forall>i<k. \<not> fu_done (adv ! i))"
  then have kk: "fu_done (adv ! k)" "\<forall>i<k. \<not> fu_done (adv ! i)" by simp_all
  note fc = execute_first_completed [OF assms(2,3,4) k(1) [unfolded adv_def] kk [unfolded adv_def],
      folded adv_def]
  show "CDB s' = Some (FU_get_output (adv ! k))" using fc by simp
  show "\<not> fu_done (FUs s' ! k)" using fc by simp
  fix j
  assume j: "j < length adv" "j \<noteq> k \<and> fu_done (adv ! j)"
  then show "FUs s' ! j = adv ! j" using fc by simp
  then show "FU_execute cfg (FUs s' ! j) = FUs s' ! j"
    using j by (simp add: FU_execute_done)
next
  show "length (FUs s') = length (FUs s)" "FUs_wf (FUs s')"
    using execute_FUs_wf [OF assms(3,4)] by simp_all
next
  fix a t t'
  assume "a \<noteq> ExecutePhase \<and> step cfg a t = Inr t'"
  then show "FUs t' = FUs t" using step_FUs by blast
next
  fix t show "CDB (writeback t) = None" by (rule writeback_CDB)
qed

lemma stations_ok_fetch: "stations_ok s \<Longrightarrow> stations_ok (fetch instr s)"
  by (simp add: stations_ok_def fetch_def)

lemma stations_ok_commit:
  assumes "tomasulo_inv s" "stations_ok s" "commit s = Inr s'"
  shows "stations_ok s'"
proof -
  from commit_Inr [OF assms(3)] show ?thesis
  proof
    assume "s' = s" then show ?thesis using assms(2) by simp
  next
    assume c: "\<not> ROB_empty (ROB s) \<and> ready (ROB_get_entry (ROB s) (ROB_head_index (ROB s))) \<and>
          RS s' = RS s \<and> FUs s' = FUs s \<and> CDB s' = CDB s \<and> RST s' = RST s \<and>
          ROB s' = ROB_pop (ROB s) \<and>
          RAT s' =
            (if use_rd (rob_instr (ROB_get_entry (ROB s) (ROB_head_index (ROB s)))) \<and>
                RAT s (getRd (rob_instr (ROB_get_entry (ROB s) (ROB_head_index (ROB s))))) =
                  Some (ROB_head_index (ROB s))
             then (RAT s)(getRd (rob_instr (ROB_get_entry (ROB s) (ROB_head_index (ROB s)))) := None)
             else RAT s)"
    have w: "wf_ROB (ROB s)" using assms(1) by (simp add: tomasulo_inv_def)
    have ne: "\<not> ROB_empty (ROB s)" using c by simp
    have rdy: "ready (rob_store (ROB s) ! rob_head (ROB s))"
      using c by (simp add: ROB_get_entry_def ROB_head_index_def)
    have pos: "ROB_positions (ROB s) = rob_head (ROB s) # ROB_positions (ROB s')"
      using ROB_positions_hd [OF w ne] c by simp
    have store: "rob_store (ROB s') = rob_store (ROB s)" using c by (simp add: ROB_pop_def)
    show ?thesis
      unfolding stations_ok_def
    proof (intro allI impI)
      fix k assume k: "k < length (RS s')" "valid (RS s' ! k)"
      let ?p = "nat (rob_index (RS s ! k))"
      from assms(2) k c have o: "0 \<le> rob_index (RS s ! k)" "?p \<in> set (ROB_positions (ROB s))"
        "\<not> ready (rob_store (ROB s) ! ?p)" "RST s ! ?p = int k"
        by (auto simp: stations_ok_def)
      have "?p \<noteq> rob_head (ROB s)" using o(3) rdy by auto
      then have "?p \<in> set (ROB_positions (ROB s'))" using o(2) pos by simp
      then show "0 \<le> rob_index (RS s' ! k) \<and>
        nat (rob_index (RS s' ! k)) \<in> set (ROB_positions (ROB s')) \<and>
        \<not> ready (rob_store (ROB s') ! nat (rob_index (RS s' ! k))) \<and>
        RST s' ! nat (rob_index (RS s' ! k)) = int k"
        using o c store by simp
    qed
  qed
qed

lemma stations_ok_writeback:
  assumes "tomasulo_inv s" "stations_ok s"
  shows "stations_ok (writeback s)"
proof (cases "CDB s")
  case None
  then show ?thesis using assms(2) by (simp add: writeback_def)
next
  case (Some d)
  let ?k = "nat (cdb_rs_index d)"
  let ?p = "nat (cdb_rob_index d)"
  let ?wake = "\<lambda>entry. if valid entry then update_operands d entry else entry"
  let ?w = "map ?wake (RS s)"
  let ?s' = "writeback s"
  have hold: "holders_ok (RS s) (FUs s) (CDB s)" using assms(1) by (simp add: tomasulo_inv_def)
  have h: "0 \<le> cdb_rs_index d" "?k < length (RS s)" "valid (RS s ! ?k)"
    "rob_index (RS s ! ?k) = cdb_rob_index d"
    using hold Some by (auto simp: holders_ok_def holds_def)
  have rs': "RS ?s' = ?w[?k := (?w ! ?k)\<lparr>valid := False, running := False\<rparr>]"
    using Some h(1) by (simp add: writeback_def RS_release_def)
  have rst': "RST ?s' = RST s" and rob': "ROB ?s' = ROB_update_cdb d (ROB s)"
    using Some by (simp_all add: writeback_def)
  have store': "rob_store (ROB ?s') =
      (rob_store (ROB s))[?p := (rob_store (ROB s) ! ?p)\<lparr>ready := True, result := cdb_result d\<rparr>]"
    by (simp add: rob' ROB_update_cdb_def Let_def)
  have kd: "RST s ! ?p = int ?k" "0 \<le> cdb_rob_index d"
    using assms(2) h by (auto simp: stations_ok_def)
  show ?thesis
    unfolding stations_ok_def
  proof (intro allI impI)
    fix k assume k: "k < length (RS ?s')" "valid (RS ?s' ! k)"
    have kl: "k < length (RS s)" using k(1) by (simp add: rs')
    have kk: "k \<noteq> ?k" using k(2) h(2) by (auto simp: rs')
    then have e: "RS ?s' ! k = ?wake (RS s ! k)" using kl by (simp add: rs')
    then have v: "valid (RS s ! k)" using k(2) by (simp split: if_splits)
    let ?q = "nat (rob_index (RS s ! k))"
    from assms(2) kl v have o: "0 \<le> rob_index (RS s ! k)" "?q \<in> set (ROB_positions (ROB s))"
      "\<not> ready (rob_store (ROB s) ! ?q)" "RST s ! ?q = int k"
      by (auto simp: stations_ok_def)
    have "?q \<noteq> ?p"
    proof
      assume "?q = ?p"
      then have "int k = int ?k" using o(4) kd(1) by simp
      then have "k = ?k" by (simp only: int_int_eq)
      then show False using kk by simp
    qed
    then have "\<not> ready (rob_store (ROB ?s') ! ?q)" using o(3) by (simp add: store')
    then show "0 \<le> rob_index (RS ?s' ! k) \<and>
        nat (rob_index (RS ?s' ! k)) \<in> set (ROB_positions (ROB ?s')) \<and>
        \<not> ready (rob_store (ROB ?s') ! nat (rob_index (RS ?s' ! k))) \<and>
        RST ?s' ! nat (rob_index (RS ?s' ! k)) = int k"
      using o e v by (simp add: rst' rob')
  qed
qed

lemma execute_same_but_running:
  assumes "tomasulo_inv s" "execute cfg s = Inr s'"
  shows "same_but_running (RS s') (RS s) \<and> ROB s' = ROB s \<and> RST s' = RST s"
proof -
  let ?dr = "drain_FUs (map (FU_execute cfg) (FUs s)) (CDB s)"
  from execute_Inr [OF assms(2)] obtain st where
    st: "schedule cfg [0..<length (RS s)] (RS s, fst ?dr) = Inr st"
    and s': "s' = s\<lparr>RS := fst st, FUs := snd st, CDB := snd ?dr\<rparr>"
    by blast
  have hold: "holders_ok (RS s) (FUs s) (CDB s)" using assms(1) by (simp add: tomasulo_inv_def)
  have h0: "holders_ok (fst (RS s, fst ?dr)) (snd (RS s, fst ?dr)) (snd ?dr)"
    using holders_ok_drain [OF holders_ok_advance [OF hold, of cfg]] by simp
  have r0: "\<forall>i\<in>set [0..<length (RS s)]. i < length (fst (RS s, fst ?dr))" by simp
  from schedule_inv [OF h0 r0 st] show ?thesis by (simp add: s')
qed

lemma stations_ok_execute:
  assumes "tomasulo_inv s" "stations_ok s" "execute cfg s = Inr s'"
  shows "stations_ok s'"
proof -
  from execute_same_but_running [OF assms(1,3)]
  have sb: "same_but_running (RS s') (RS s)" and rob: "ROB s' = ROB s" and rst: "RST s' = RST s"
    by simp_all
  have len: "length (RS s') = length (RS s)" using sb by (simp add: same_but_running_def)
  show ?thesis
    unfolding stations_ok_def
  proof (intro allI impI)
    fix k assume k: "k < length (RS s')" "valid (RS s' ! k)"
    then have kl: "k < length (RS s)" using len by simp
    have "valid (RS s ! k)" "rob_index (RS s' ! k) = rob_index (RS s ! k)"
      using same_but_running_nth(1,2) [OF sb kl] k(2) by simp_all
    then show "0 \<le> rob_index (RS s' ! k) \<and>
        nat (rob_index (RS s' ! k)) \<in> set (ROB_positions (ROB s')) \<and>
        \<not> ready (rob_store (ROB s') ! nat (rob_index (RS s' ! k))) \<and>
        RST s' ! nat (rob_index (RS s' ! k)) = int k"
      using assms(2) kl by (simp add: stations_ok_def rob rst)
  qed
qed

lemma stations_ok_issue:
  assumes "tomasulo_inv s" "stations_ok s" "issue s = Inr s'"
  shows "stations_ok s'"
proof (cases "issue_queue s = [] \<or> RS_full (RS s) \<or> ROB_full (ROB s)")
  case True
  then have "s' = s" using assms(3) by (auto simp: issue_def issue_with_def Let_def split: if_splits)
  then show ?thesis using assms(2) by simp
next
  case False
  then obtain instr q where q: "issue_queue s = instr # q"
    by (cases "issue_queue s") auto
  have nf: "\<not> RS_full (RS s)" "\<not> ROB_full (ROB s)" using False by simp_all
  from nf obtain k where k: "RS_free_slot (RS s) = Some k"
    using RS_free_slot_None [of "RS s"] by auto
  have kl: "k < length (RS s)" and kv: "\<not> valid (RS s ! k)"
    using RS_free_slot_Some [OF k] by simp_all
  let ?t = "rob_tail (ROB s)"
  from issue_Inr_new_entry [OF q nf assms(3) k] obtain d1 i1 d2 i2 where
    rs': "RS s' = (RS s)[k := \<lparr>valid = True, running = False, rob_index = int ?t,
                           rs1_index = i1, rs2_index = i2, rs1_data = d1, rs2_data = d2,
                           rs_instr = instr\<rparr>]" and
    rst': "RST s' = (RST s)[?t := int k]" and
    rob': "ROB s' = snd (ROB_allocate instr (ROB s))"
    by blast
  have w: "wf_ROB (ROB s)" and len: "length (RST s) = ROB_size (ROB s)"
    using assms(1) by (simp_all add: tomasulo_inv_def)
  have pos: "ROB_positions (ROB s') = ROB_positions (ROB s) @ [?t]"
    and tnew: "?t \<notin> set (ROB_positions (ROB s))" and tlt: "?t < ROB_size (ROB s)"
    using ROB_positions_allocate [OF w nf(2)] by (simp_all add: rob')
  have store': "rob_store (ROB s') =
      (rob_store (ROB s))[?t := \<lparr>rob_instr = instr, ready = False, result = 0\<rparr>]"
    using nf(2) by (simp add: rob' ROB_allocate_def)
  have tl': "?t < length (rob_store (ROB s))" using tlt by (simp add: ROB_size_def)
  show ?thesis
    unfolding stations_ok_def
  proof (intro allI impI)
    fix j assume j: "j < length (RS s')" "valid (RS s' ! j)"
    show "0 \<le> rob_index (RS s' ! j) \<and>
        nat (rob_index (RS s' ! j)) \<in> set (ROB_positions (ROB s')) \<and>
        \<not> ready (rob_store (ROB s') ! nat (rob_index (RS s' ! j))) \<and>
        RST s' ! nat (rob_index (RS s' ! j)) = int j"
    proof (cases "j = k")
      case True
      then show ?thesis using kl tl' tlt len by (simp add: rs' pos store' rst')
    next
      case False
      then have e: "RS s' ! j = RS s ! j" by (simp add: rs')
      have jl: "j < length (RS s)" using j(1) by (simp add: rs')
      let ?q = "nat (rob_index (RS s ! j))"
      from assms(2) jl j(2) e have o: "0 \<le> rob_index (RS s ! j)"
        "?q \<in> set (ROB_positions (ROB s))"
        "\<not> ready (rob_store (ROB s) ! ?q)" "RST s ! ?q = int j"
        by (auto simp: stations_ok_def)
      have "?q \<noteq> ?t" using o(2) tnew by auto
      then show ?thesis using o e by (simp add: pos store' rst')
    qed
  qed
qed

lemma stations_ok_init: "stations_ok ((init_core rob_n rs_n fu_n regs)\<lparr>reg_file := rf\<rparr>)"
  by (simp add: stations_ok_def init_core_def free_RS_entry_def)

lemma stations_ok_step:
  assumes "tomasulo_inv s" "stations_ok s" "step cfg a s = Inr s'"
  shows "stations_ok s'"
proof (cases a)
  case (Fetch instr)
  then show ?thesis using assms stations_ok_fetch by auto
next
  case IssuePhase
  then show ?thesis using assms stations_ok_issue by auto
next
  case ExecutePhase
  then show ?thesis using assms stations_ok_execute by auto
next
  case WritebackPhase
  then show ?thesis using assms stations_ok_writeback by auto
next
  case CommitPhase
  then show ?thesis using assms stations_ok_commit by auto
qed

lemma invs_run:
  assumes "tomasulo_inv s" "stations_ok s" "run cfg acts s = Inr s'"
  shows "tomasulo_inv s' \<and> stations_ok s'"
  using assms
proof (induction acts arbitrary: s)
  case Nil
  then show ?case by simp
next
  case (Cons a acts)
  then obtain s1 where s1: "step cfg a s = Inr s1" "run cfg acts s1 = Inr s'"
    by (auto simp: bind_error_def split: sum.splits)
  from Cons.IH [OF tomasulo_inv_step [OF Cons.prems(1) s1(1)]
      stations_ok_step [OF Cons.prems(1,2) s1(1)] s1(2)]
  show ?case .
qed

lemma waiting_bound_fetch [simp]: "waiting_bound (fetch instr s) p = waiting_bound s p"
  by (simp add: waiting_bound_def fetch_def)

lemma waiting_bound_commit:
  assumes "tomasulo_inv s" "commit s = Inr s'"
    "p \<in> set (ROB_positions (ROB s))" "\<not> ready (rob_store (ROB s) ! p)"
  shows "waiting_bound s' p = waiting_bound s p"
proof -
  from commit_Inr [OF assms(2)] show ?thesis
  proof
    assume "s' = s" then show ?thesis by simp
  next
    assume c: "\<not> ROB_empty (ROB s) \<and> ready (ROB_get_entry (ROB s) (ROB_head_index (ROB s))) \<and>
          RS s' = RS s \<and> FUs s' = FUs s \<and> CDB s' = CDB s \<and> RST s' = RST s \<and>
          ROB s' = ROB_pop (ROB s) \<and>
          RAT s' =
            (if use_rd (rob_instr (ROB_get_entry (ROB s) (ROB_head_index (ROB s)))) \<and>
                RAT s (getRd (rob_instr (ROB_get_entry (ROB s) (ROB_head_index (ROB s))))) =
                  Some (ROB_head_index (ROB s))
             then (RAT s)(getRd (rob_instr (ROB_get_entry (ROB s) (ROB_head_index (ROB s)))) := None)
             else RAT s)"
    have w: "wf_ROB (ROB s)" using assms(1) by (simp add: tomasulo_inv_def)
    have ne: "\<not> ROB_empty (ROB s)" using c by simp
    have rdy: "ready (rob_store (ROB s) ! rob_head (ROB s))"
      using c by (simp add: ROB_get_entry_def ROB_head_index_def)
    have pos: "ROB_positions (ROB s) = rob_head (ROB s) # ROB_positions (ROB s')"
      using ROB_positions_hd [OF w ne] c by simp
    have store: "rob_store (ROB s') = rob_store (ROB s)" using c by (simp add: ROB_pop_def)
    have hp: "rob_head (ROB s) \<noteq> p" using rdy assms(4) by auto
    have cnt: "0 < rob_count (ROB s)" "rob_count (ROB s) \<le> ROB_size (ROB s)"
      using ne w by (simp_all add: ROB_empty_def wf_ROB_def)
    have 1: "pending_slots (ROB s') = pending_slots (ROB s)"
      using rdy by (simp add: pending_slots_def pos store)
    have 2: "older_slots (ROB s) p = Suc (older_slots (ROB s') p)"
      using hp by (simp add: older_slots_def pos)
    have 3: "ROB_size (ROB s') - rob_count (ROB s') = Suc (ROB_size (ROB s) - rob_count (ROB s))"
      using c cnt by (simp add: ROB_pop_def ROB_size_def)
    show ?thesis using 1 2 3 c by (simp add: waiting_bound_def)
  qed
qed

lemma filter_flip:
  assumes "distinct xs" "q \<in> set xs" "\<not> ready (st ! q)" "q < length st"
  shows "Suc (length (filter (\<lambda>p. \<not> ready (st[q := (st ! q)\<lparr>ready := True, result := v\<rparr>] ! p)) xs)) =
         length (filter (\<lambda>p. \<not> ready (st ! p)) xs)"
  using assms(1,2)
proof (induction xs)
  case Nil
  then show ?case by simp
next
  case (Cons x xs)
  show ?case
  proof (cases "x = q")
    case True
    then have "q \<notin> set xs" using Cons.prems(1) by simp
    have e: "st[q := (st ! q)\<lparr>ready := True, result := v\<rparr>] ! y = st ! y" if "y \<in> set xs" for y
    proof -
      from that \<open>q \<notin> set xs\<close> have "q \<noteq> y" by auto
      then show ?thesis by (rule nth_list_update_neq)
    qed
    have "filter (\<lambda>p. \<not> ready (st[q := (st ! q)\<lparr>ready := True, result := v\<rparr>] ! p)) xs =
               filter (\<lambda>p. \<not> ready (st ! p)) xs"
      by (rule filter_cong) (simp_all add: e)
    then show ?thesis using True assms(3,4) by simp
  next
    case False
    then have "q \<in> set xs" "distinct xs" using Cons.prems by simp_all
    from Cons.IH [OF this(2,1)] False show ?thesis by simp
  qed
qed

lemma waiting_bound_writeback:
  assumes "tomasulo_inv s" "stations_ok s"
  shows "waiting_bound (writeback s) p = waiting_bound s p"
proof (cases "CDB s")
  case None
  then show ?thesis by (simp add: writeback_def)
next
  case (Some d)
  let ?k = "nat (cdb_rs_index d)"
  let ?p = "nat (cdb_rob_index d)"
  have w: "wf_ROB (ROB s)" and hold: "holders_ok (RS s) (FUs s) (CDB s)"
    using assms(1) by (simp_all add: tomasulo_inv_def)
  have h: "?k < length (RS s)" "valid (RS s ! ?k)" "rob_index (RS s ! ?k) = cdb_rob_index d"
    using hold Some by (auto simp: holders_ok_def holds_def)
  have pd: "?p \<in> set (ROB_positions (ROB s))" "\<not> ready (rob_store (ROB s) ! ?p)"
    using assms(2) h by (auto simp: stations_ok_def)
  have pl: "?p < length (rob_store (ROB s))"
    using ROB_positions_less [OF w pd(1)] by (simp add: ROB_size_def)
  have rob': "ROB (writeback s) = ROB_update_cdb d (ROB s)" and cdb': "CDB (writeback s) = None"
    using Some by (simp_all add: writeback_def)
  have "Suc (pending_slots (ROB (writeback s))) = pending_slots (ROB s)"
    using filter_flip [OF ROB_positions_distinct [OF w] pd pl, of "cdb_result d"]
    by (simp add: pending_slots_def rob') (simp add: ROB_update_cdb_def Let_def)
  moreover have "older_slots (ROB (writeback s)) p = older_slots (ROB s) p"
    by (simp add: older_slots_def rob')
  moreover have "ROB_size (ROB (writeback s)) - rob_count (ROB (writeback s)) =
      ROB_size (ROB s) - rob_count (ROB s)"
    by (simp add: rob' ROB_update_cdb_def ROB_size_def Let_def)
  ultimately show ?thesis using Some cdb' by (simp add: waiting_bound_def)
qed

lemma waiting_bound_issue:
  assumes "tomasulo_inv s" "issue s = Inr s'" "p \<in> set (ROB_positions (ROB s))"
  shows "waiting_bound s' p = waiting_bound s p"
proof (cases "issue_queue s = [] \<or> RS_full (RS s) \<or> ROB_full (ROB s)")
  case True
  then have "s' = s" using assms(2) by (auto simp: issue_def issue_with_def Let_def split: if_splits)
  then show ?thesis by simp
next
  case False
  then obtain instr q where q: "issue_queue s = instr # q"
    by (cases "issue_queue s") auto
  have nf: "\<not> RS_full (RS s)" "\<not> ROB_full (ROB s)" using False by simp_all
  from nf obtain k where k: "RS_free_slot (RS s) = Some k"
    using RS_free_slot_None [of "RS s"] by auto
  let ?t = "rob_tail (ROB s)"
  from issue_Inr_new_entry [OF q nf assms(2) k] have
    rob': "ROB s' = snd (ROB_allocate instr (ROB s))"
    by blast
  have cdb': "CDB s' = CDB s" by (rule issue_CDB [OF assms(2)])
  have w: "wf_ROB (ROB s)" using assms(1) by (simp add: tomasulo_inv_def)
  have pos: "ROB_positions (ROB s') = ROB_positions (ROB s) @ [?t]"
    and tnew: "?t \<notin> set (ROB_positions (ROB s))" and tlt: "?t < ROB_size (ROB s)"
    using ROB_positions_allocate [OF w nf(2)] by (simp_all add: rob')
  have store': "rob_store (ROB s') =
      (rob_store (ROB s))[?t := \<lparr>rob_instr = instr, ready = False, result = 0\<rparr>]"
    using nf(2) by (simp add: rob' ROB_allocate_def)
  have tl': "?t < length (rob_store (ROB s))" using tlt by (simp add: ROB_size_def)
  have cnt: "rob_count (ROB s) < ROB_size (ROB s)"
    using w nf(2) by (simp add: wf_ROB_def ROB_full_def)
  have e: "rob_store (ROB s') ! y = rob_store (ROB s) ! y"
    if "y \<in> set (ROB_positions (ROB s))" for y
  proof -
    from that tnew have "?t \<noteq> y" by auto
    then show ?thesis unfolding store' by (rule nth_list_update_neq)
  qed
  have f: "filter (\<lambda>p. \<not> ready (rob_store (ROB s') ! p)) (ROB_positions (ROB s)) =
           filter (\<lambda>p. \<not> ready (rob_store (ROB s) ! p)) (ROB_positions (ROB s))"
    by (rule filter_cong) (simp_all add: e)
  have 1: "pending_slots (ROB s') = Suc (pending_slots (ROB s))"
    using f tl' by (simp add: pending_slots_def pos) (simp add: store')
  have 2: "older_slots (ROB s') p = older_slots (ROB s) p"
    using assms(3) by (simp add: older_slots_def pos takeWhile_append1)
  have 3: "Suc (ROB_size (ROB s') - rob_count (ROB s')) = ROB_size (ROB s) - rob_count (ROB s)"
    using nf(2) cnt by (simp add: rob' ROB_allocate_def ROB_size_def)
  show ?thesis using 1 2 3 cdb' by (simp add: waiting_bound_def)
qed

lemma run_fetches:
  assumes "run cfg (map Fetch fs) s = Inr sa"
  shows "FUs sa = FUs s \<and> waiting_bound sa p = waiting_bound s p"
  using assms
proof (induction fs arbitrary: s)
  case Nil
  then show ?case by simp
next
  case (Cons f fs)
  then have "run cfg (map Fetch fs) (fetch f s) = Inr sa" by (simp add: bind_error_def)
  from Cons.IH [OF this] show ?case by (simp add: fetch_def waiting_bound_def)
qed

lemma run_cycle:
  assumes "run cfg (cycle fs) s = Inr s1"
  shows "\<exists>sa sb t. run cfg (map Fetch fs) s = Inr sa \<and> commit sa = Inr sb \<and>
           execute cfg (writeback sb) = Inr t \<and> issue t = Inr s1 \<and>
           run cfg (map Fetch fs @ [CommitPhase, WritebackPhase, ExecutePhase]) s = Inr t"
proof -
  obtain sa where sa: "run cfg (map Fetch fs) s = Inr sa"
    and r1: "run cfg [CommitPhase, WritebackPhase, ExecutePhase, IssuePhase] sa = Inr s1"
    using assms unfolding cycle_def run_append
    by (cases "run cfg (map Fetch fs) s") (simp_all add: bind_error_def)
  obtain sb where sb: "commit sa = Inr sb"
    and r2: "run cfg [WritebackPhase, ExecutePhase, IssuePhase] sb = Inr s1"
    using r1 by (cases "commit sa") (simp_all add: bind_error_def)
  obtain t where t: "execute cfg (writeback sb) = Inr t" and r3: "issue t = Inr s1"
    using r2 by (cases "execute cfg (writeback sb)") (auto simp: bind_error_def split: sum.splits)
  have "run cfg (map Fetch fs @ [CommitPhase, WritebackPhase, ExecutePhase]) s = Inr t"
    using sa sb t by (simp add: run_append bind_error_def)
  then show ?thesis using sa sb t r3 by blast
qed

lemma unit_slot:
  assumes "tomasulo_inv s" "stations_ok s" "j < length (FUs s)" "fu_done (FUs s ! j)"
  shows "nat (fu_rob_index (FUs s ! j)) \<in> set (ROB_positions (ROB s)) \<and>
         \<not> ready (rob_store (ROB s) ! nat (fu_rob_index (FUs s ! j)))"
proof -
  have hold: "holders_ok (RS s) (FUs s) (CDB s)" using assms(1) by (simp add: tomasulo_inv_def)
  have m: "FUs s ! j \<in> set (FUs s)" using assms(3) by simp
  then have "fu_busy (FUs s ! j)" using hold assms(4) by (auto simp: holders_ok_def FUs_wf_def)
  then have h: "holds (RS s) (fu_rs_index (FUs s ! j)) (fu_rob_index (FUs s ! j))"
    using hold m by (auto simp: holders_ok_def)
  then show ?thesis using assms(2) by (auto simp: holds_def stations_ok_def)
qed

lemma cycle_progress:
  assumes "tomasulo_inv s" "stations_ok s" "j < length (FUs s)" "fu_done (FUs s ! j)"
    "run cfg (cycle fs) s = Inr s1"
  shows "(\<exists>t. run cfg (map Fetch fs @ [CommitPhase, WritebackPhase, ExecutePhase]) s = Inr t \<and>
              CDB t = Some (FU_get_output (FUs s ! j))) \<or>
         (FUs s1 ! j = FUs s ! j \<and> length (FUs s1) = length (FUs s) \<and>
          Suc (waiting_bound s1 (nat (fu_rob_index (FUs s ! j)))) =
            waiting_bound s (nat (fu_rob_index (FUs s ! j))))"
proof -
  let ?p = "nat (fu_rob_index (FUs s ! j))"
  from run_cycle [OF assms(5)] obtain sa sb t where
    sa: "run cfg (map Fetch fs) s = Inr sa" and sb: "commit sa = Inr sb" and
    t: "execute cfg (writeback sb) = Inr t" and s1: "issue t = Inr s1" and
    rt: "run cfg (map Fetch fs @ [CommitPhase, WritebackPhase, ExecutePhase]) s = Inr t"
    by blast
  let ?sc = "writeback sb"
  have ia: "tomasulo_inv sa" "stations_ok sa" using invs_run [OF assms(1,2) sa] by simp_all
  have ib: "tomasulo_inv sb" "stations_ok sb"
    using tomasulo_inv_commit [OF ia(1) sb] stations_ok_commit [OF ia sb] by simp_all
  have ic: "tomasulo_inv ?sc" "stations_ok ?sc"
    using tomasulo_inv_writeback [OF ib(1)] stations_ok_writeback [OF ib] by simp_all
  have it: "tomasulo_inv t" using tomasulo_inv_execute [OF ic(1) t] .
  have fa: "FUs sa = FUs s" and wa: "waiting_bound sa ?p = waiting_bound s ?p"
    using run_fetches [OF sa] by simp_all
  have fb: "FUs sb = FUs s" using commit_FUs [OF sb] fa by simp
  have fc: "FUs ?sc = FUs s" using fb by (simp add: writeback_FUs)
  have pa: "?p \<in> set (ROB_positions (ROB sa))" "\<not> ready (rob_store (ROB sa) ! ?p)"
    using unit_slot [OF ia, of j] assms(3,4) fa by simp_all
  have wb: "waiting_bound sb ?p = waiting_bound s ?p"
    using waiting_bound_commit [OF ia(1) sb pa] wa by simp
  have wc: "waiting_bound ?sc ?p = waiting_bound s ?p"
    using waiting_bound_writeback [OF ib, of ?p] wb by simp
  have cc: "CDB ?sc = None" by (rule writeback_CDB)
  have wfc: "FUs_wf (FUs ?sc)" using ic(1) by (simp add: tomasulo_inv_def holders_ok_def)
  let ?adv = "map (FU_execute cfg) (FUs ?sc)"
  have jl: "j < length ?adv" using assms(3) fc by simp
  have advj: "?adv ! j = FUs s ! j" using assms(3,4) fc by (simp add: FU_execute_done)
  then have dj: "fu_done (?adv ! j)" using assms(4) by simp
  from first_done_exists [OF dj] obtain k where
    kj: "k \<le> j" and k: "fu_done (?adv ! k)" "\<forall>i<k. \<not> fu_done (?adv ! i)" by blast
  have kl: "k < length ?adv" using kj jl by simp
  note fc' = execute_first_completed [OF cc wfc t kl k]
  have rob_t: "ROB t = ROB ?sc" using execute_frame [OF t] by simp
  show ?thesis
  proof (cases "k = j")
    case True
    then have "CDB t = Some (FU_get_output (FUs s ! j))" using fc' advj by simp
    then show ?thesis using rt by blast
  next
    case False
    then have ftj: "FUs t ! j = FUs s ! j" using fc' jl dj advj by simp
    have lent: "length (FUs t) = length (FUs s)"
      using execute_FUs_wf [OF wfc t] fc by simp
    have ct: "CDB t \<noteq> None" using fc' by simp
    have wt: "Suc (waiting_bound t ?p) = waiting_bound ?sc ?p"
      using ct cc rob_t by (simp add: waiting_bound_def)
    have pt: "?p \<in> set (ROB_positions (ROB t))"
      using unit_slot [OF ic, of j] assms(3,4) fc rob_t by simp
    have w1: "waiting_bound s1 ?p = waiting_bound t ?p"
      by (rule waiting_bound_issue [OF it s1 pt])
    have f1: "FUs s1 = FUs t" by (rule issue_FUs [OF s1])
    show ?thesis using ftj lent wt wc w1 f1 by simp
  qed
qed

lemma completed_unit_broadcast:
  assumes "tomasulo_inv s" "stations_ok s" "j < length (FUs s)" "fu_done (FUs s ! j)"
    "run cfg (concat (map cycle fss)) s = Inr s'"
    "waiting_bound s (nat (fu_rob_index (FUs s ! j))) < length fss"
  shows "\<exists>fss1 fs fss2 t. fss = fss1 @ fs # fss2 \<and>
           run cfg (concat (map cycle fss1) @ map Fetch fs @
                    [CommitPhase, WritebackPhase, ExecutePhase]) s = Inr t \<and>
           CDB t = Some (FU_get_output (FUs s ! j))"
  using assms
proof (induction fss arbitrary: s)
  case Nil
  then show ?case by simp
next
  case (Cons fs rest)
  let ?p = "nat (fu_rob_index (FUs s ! j))"
  from Cons.prems(5) obtain s1 where s1: "run cfg (cycle fs) s = Inr s1"
    and r: "run cfg (concat (map cycle rest)) s1 = Inr s'"
    by (cases "run cfg (cycle fs) s") (simp_all add: run_append bind_error_def)
  from cycle_progress [OF Cons.prems(1-4) s1] show ?case
  proof
    assume "\<exists>t. run cfg (map Fetch fs @ [CommitPhase, WritebackPhase, ExecutePhase]) s = Inr t \<and>
              CDB t = Some (FU_get_output (FUs s ! j))"
    then obtain t where "run cfg (concat (map cycle []) @ map Fetch fs @
        [CommitPhase, WritebackPhase, ExecutePhase]) s = Inr t"
      "CDB t = Some (FU_get_output (FUs s ! j))" by auto
    then show ?thesis by (metis append_Nil)
  next
    assume w: "FUs s1 ! j = FUs s ! j \<and> length (FUs s1) = length (FUs s) \<and>
          Suc (waiting_bound s1 ?p) = waiting_bound s ?p"
    have i1: "tomasulo_inv s1" "stations_ok s1" using invs_run [OF Cons.prems(1,2) s1] by simp_all
    have j1: "j < length (FUs s1)" "fu_done (FUs s1 ! j)" using w Cons.prems(3,4) by simp_all
    have b1: "waiting_bound s1 (nat (fu_rob_index (FUs s1 ! j))) < length rest"
      using w Cons.prems(6) by simp
    from Cons.IH [OF i1 j1 r b1] obtain fss1 fs' fss2 t where
      e: "rest = fss1 @ fs' # fss2" and
      rt: "run cfg (concat (map cycle fss1) @ map Fetch fs' @
                    [CommitPhase, WritebackPhase, ExecutePhase]) s1 = Inr t" and
      ct: "CDB t = Some (FU_get_output (FUs s1 ! j))"
      by blast
    have "fs # rest = (fs # fss1) @ fs' # fss2" using e by simp
    moreover have "run cfg (concat (map cycle (fs # fss1)) @ map Fetch fs' @
                    [CommitPhase, WritebackPhase, ExecutePhase]) s = Inr t"
      using s1 rt by (simp add: run_append bind_error_def)
    moreover have "CDB t = Some (FU_get_output (FUs s ! j))" using ct w by simp
    ultimately show ?thesis by blast
  qed
qed

lemma reachable_invs:
  assumes "run cfg acts ((init_core rob_n rs_n fu_n regs)\<lparr>reg_file := rf\<rparr>) = Inr s"
  shows "tomasulo_inv s \<and> stations_ok s"
  by (rule invs_run [OF tomasulo_inv_init_regs stations_ok_init assms])

section \<open>Claims\<close>

text \<open>
  C1: instructions commit in the order in which they were issued, whatever the order in
  which the functional units complete. For every run of the core from reset (any
  interleaving of fetches and of the four phases, any latencies), the instructions
  issued are the instructions committed followed by the instructions held in the
  reorder buffer from its head on; so the commits are a prefix of the issues, and the
  slot a commit frees is the oldest one.
\<close>

theorem commit_order_is_issue_order:
  assumes "run cfg acts (init_core rob_n rs_n fu_n regs) = Inr s"
  shows "issued (trace s) = committed (trace s) @ map rob_instr (ROB_contents (ROB s)) \<and>
         prefix (committed (trace s)) (issued (trace s))"
  using fifo_inv_run [OF fifo_inv_init assms] by (simp add: fifo_inv_def)

theorem commit_order_is_issue_order_witness:
  "\<exists>s. run demo_cfg demo_run (init_core 2 2 2 32) = Inr s \<and>
       trace s = [Issue instr_A, Issue instr_B, Commit instr_A, Commit instr_B] \<and>
       issued (trace s) = committed (trace s) @ map rob_instr (ROB_contents (ROB s)) \<and>
       prefix (committed (trace s)) (issued (trace s))"
proof -
  have "case run demo_cfg demo_run (init_core 2 2 2 32) of
          Inl e \<Rightarrow> False
        | Inr s \<Rightarrow> trace s = [Issue instr_A, Issue instr_B, Commit instr_A, Commit instr_B]"
    by code_simp
  then obtain s where s: "run demo_cfg demo_run (init_core 2 2 2 32) = Inr s"
    "trace s = [Issue instr_A, Issue instr_B, Commit instr_A, Commit instr_B]"
    by (cases "run demo_cfg demo_run (init_core 2 2 2 32)") simp_all
  from commit_order_is_issue_order [OF s(1)] s show ?thesis by blast
qed

text \<open>
  C6: a full reorder buffer or a full reservation-station set stalls the issue: the
  phase returns the state as it was, so nothing is allocated or modified and the
  instruction stays at the head of the issue queue.
\<close>

theorem issue_stalls_when_full:
  "RS_full (RS s) \<or> ROB_full (ROB s) \<Longrightarrow> issue_with rob_allocate rs_issue s = Inr s"
  by (simp add: issue_with_def Let_def)

theorem issue_stalls_when_full_witness:
  "\<exists>s. run demo_cfg stall_run (init_core 4 2 2 32) = Inr s \<and> RS_full (RS s) \<and>
       issue_queue s = [instr_A] \<and> issue_with ROB_allocate RS_issue s = Inr s"
proof -
  have "case run demo_cfg stall_run (init_core 4 2 2 32) of
          Inl e \<Rightarrow> False
        | Inr s \<Rightarrow> RS_full (RS s) \<and> issue_queue s = [instr_A]"
    by code_simp
  then obtain s where s: "run demo_cfg stall_run (init_core 4 2 2 32) = Inr s"
    "RS_full (RS s)" "issue_queue s = [instr_A]"
    by (cases "run demo_cfg stall_run (init_core 4 2 2 32)") simp_all
  from issue_stalls_when_full [of s ROB_allocate RS_issue] s show ?thesis by blast
qed

text \<open>
  C5: when the head slot commits an instruction that writes a destination register, the
  result is stored in the register file at that register, and the alias-table mapping
  of that register is cleared exactly when it still names the committing slot; a
  mapping that a younger instruction has redirected to a newer slot stays as it is.
\<close>

theorem commit_writes_rd_and_clears_RAT:
  fixes s :: core
  defines "h \<equiv> ROB_get_entry (ROB s) (ROB_head_index (ROB s))"
  defines "rd \<equiv> getRd (rob_instr h)"
  assumes "\<not> ROB_empty (ROB s)" and "ready h" and "use_rd (rob_instr h)"
    and "commit s = Inr s'"
  shows "rd < length (reg_file s) \<and>
         reg_file s' = (reg_file s)[rd := result h] \<and>
         reg_file s' ! rd = result h \<and>
         RAT s' = (if RAT s rd = Some (ROB_head_index (ROB s)) then (RAT s)(rd := None)
                   else RAT s)"
  using assms(5,6) unfolding commit_ready [OF assms(3) assms(4) [unfolded h_def]] h_def rd_def
  by (auto simp: bind_error_def split: if_splits)

theorem commit_writes_rd_and_clears_RAT_witness:
  "\<exists>s s' s''. run demo_cfg waw_run (demo_core 2 2) = Inr s \<and> commit s = Inr s' \<and>
     commit s' = Inr s'' \<and> RAT s 7 = Some 1 \<and> ROB_head_index (ROB s) = 0 \<and>
     reg_file s' ! 7 = 5 \<and> RAT s' 7 = Some 1 \<and> ROB_head_index (ROB s') = 1 \<and>
     reg_file s'' ! 7 = 11 \<and> RAT s'' 7 = None"
proof -
  have "case run demo_cfg (waw_run @ [CommitPhase, CommitPhase]) (demo_core 2 2) of
          Inl e \<Rightarrow> False | Inr s \<Rightarrow> True"
    by code_simp
  then obtain s s' s'' where r: "run demo_cfg waw_run (demo_core 2 2) = Inr s"
    "commit s = Inr s'" "commit s' = Inr s''"
    by (auto simp: run_append bind_error_def split: sum.splits)
  have r': "run demo_cfg (waw_run @ [CommitPhase]) (demo_core 2 2) = Inr s'"
    using run_snoc [OF r(1), of CommitPhase] r(2) by simp
  have "case run demo_cfg waw_run (demo_core 2 2) of
          Inl e \<Rightarrow> False
        | Inr s \<Rightarrow> \<not> ROB_empty (ROB s) \<and> ROB_head_index (ROB s) = 0 \<and>
            ready (ROB_get_entry (ROB s) 0) \<and> rob_instr (ROB_get_entry (ROB s) 0) = instr_C \<and>
            result (ROB_get_entry (ROB s) 0) = 5 \<and> RAT s 7 = Some 1"
    by code_simp
  then have s: "\<not> ROB_empty (ROB s)" "ROB_head_index (ROB s) = 0"
    "ready (ROB_get_entry (ROB s) 0)" "rob_instr (ROB_get_entry (ROB s) 0) = instr_C"
    "result (ROB_get_entry (ROB s) 0) = 5" "RAT s 7 = Some 1"
    by (simp_all add: r(1))
  have "case run demo_cfg (waw_run @ [CommitPhase]) (demo_core 2 2) of
          Inl e \<Rightarrow> False
        | Inr s \<Rightarrow> \<not> ROB_empty (ROB s) \<and> ROB_head_index (ROB s) = 1 \<and>
            ready (ROB_get_entry (ROB s) 1) \<and> rob_instr (ROB_get_entry (ROB s) 1) = instr_D \<and>
            result (ROB_get_entry (ROB s) 1) = 11"
    by code_simp
  then have s': "\<not> ROB_empty (ROB s')" "ROB_head_index (ROB s') = 1"
    "ready (ROB_get_entry (ROB s') 1)" "rob_instr (ROB_get_entry (ROB s') 1) = instr_D"
    "result (ROB_get_entry (ROB s') 1) = 11"
    by (simp_all add: r')
  have rdC: "getRd instr_C = 7" "use_rd instr_C" and rdD: "getRd instr_D = 7" "use_rd instr_D"
    by (simp_all add: instr_C_def instr_D_def)
  have first: "reg_file s' ! 7 = 5 \<and> RAT s' = RAT s"
    using commit_writes_rd_and_clears_RAT [OF s(1) _ _ r(2)] s rdC by simp
  have second: "reg_file s'' ! 7 = 11 \<and> RAT s'' = (RAT s')(7 := None)"
    using commit_writes_rd_and_clears_RAT [OF s'(1) _ _ r(3)] s' rdD first s(6) by simp
  show ?thesis using r s first second s'(2) by auto
qed

text \<open>
  C8: commit on an empty reorder buffer changes nothing; commit with a head slot that is
  not ready changes nothing (whatever younger slots hold); and commit of a ready head
  slot, when the destination register exists and the commit counter has not passed the
  fetch counter, returns with exactly the head slot removed from the buffer.
\<close>

theorem commit_noop_or_pop:
  fixes s :: core
  defines "h \<equiv> ROB_get_entry (ROB s) (ROB_head_index (ROB s))"
  shows "(ROB_empty (ROB s) \<longrightarrow> commit s = Inr s) \<and>
         (\<not> ROB_empty (ROB s) \<and> \<not> ready h \<longrightarrow> commit s = Inr s) \<and>
         (\<not> ROB_empty (ROB s) \<and> ready h \<and>
          (use_rd (rob_instr h) \<longrightarrow> getRd (rob_instr h) < length (reg_file s)) \<and>
          instrs s \<le> fetched_instrs s \<longrightarrow>
            (\<exists>s'. commit s = Inr s' \<and> ROB s' = ROB_pop (ROB s) \<and>
                  rob_count (ROB s') = rob_count (ROB s) - 1 \<and>
                  ROB_contents (ROB s') = tl (ROB_contents (ROB s)) \<and>
                  trace s' = trace s @ [Commit (rob_instr h)]))"
proof (intro conjI impI)
  assume "ROB_empty (ROB s)"
  then show "commit s = Inr s" by (simp add: commit_def)
next
  assume "\<not> ROB_empty (ROB s) \<and> \<not> ready h"
  then show "commit s = Inr s" by (simp add: commit_def Let_def h_def)
next
  assume a: "\<not> ROB_empty (ROB s) \<and> ready h \<and>
          (use_rd (rob_instr h) \<longrightarrow> getRd (rob_instr h) < length (reg_file s)) \<and>
          instrs s \<le> fetched_instrs s"
  then have ne: "\<not> ROB_empty (ROB s)" and rdy: "ready (ROB_get_entry (ROB s) (ROB_head_index (ROB s)))"
    by (simp_all add: h_def)
  show "\<exists>s'. commit s = Inr s' \<and> ROB s' = ROB_pop (ROB s) \<and>
                  rob_count (ROB s') = rob_count (ROB s) - 1 \<and>
                  ROB_contents (ROB s') = tl (ROB_contents (ROB s)) \<and>
                  trace s' = trace s @ [Commit (rob_instr h)]"
    using a unfolding commit_ready [OF ne rdy] h_def
    by (auto simp: bind_error_def ROB_contents_pop) (simp_all add: ROB_pop_def)
qed

theorem commit_noop_or_pop_witness:
  "\<exists>s1 s2 s2'. run demo_cfg (take 7 demo_run) (init_core 2 2 2 32) = Inr s1 \<and>
     \<not> ROB_empty (ROB s1) \<and> ROB_head_index (ROB s1) = 0 \<and>
     \<not> ready (ROB_get_entry (ROB s1) 0) \<and> ready (ROB_get_entry (ROB s1) 1) \<and>
     commit s1 = Inr s1 \<and>
     run demo_cfg (take 11 demo_run) (init_core 2 2 2 32) = Inr s2 \<and>
     commit s2 = Inr s2' \<and> rob_count (ROB s2) = 2 \<and> rob_count (ROB s2') = 1 \<and>
     trace s2' = trace s2 @ [Commit instr_A] \<and>
     commit (init_core 2 2 2 32) = Inr (init_core 2 2 2 32)"
proof -
  have "case run demo_cfg (take 7 demo_run) (init_core 2 2 2 32) of
          Inl e \<Rightarrow> False
        | Inr s \<Rightarrow> \<not> ROB_empty (ROB s) \<and> ROB_head_index (ROB s) = 0 \<and>
            \<not> ready (ROB_get_entry (ROB s) 0) \<and> ready (ROB_get_entry (ROB s) 1)"
    by code_simp
  then obtain s1 where s1: "run demo_cfg (take 7 demo_run) (init_core 2 2 2 32) = Inr s1"
    "\<not> ROB_empty (ROB s1)" "ROB_head_index (ROB s1) = 0"
    "\<not> ready (ROB_get_entry (ROB s1) 0)" "ready (ROB_get_entry (ROB s1) 1)"
    by (cases "run demo_cfg (take 7 demo_run) (init_core 2 2 2 32)") simp_all
  have "case run demo_cfg (take 11 demo_run) (init_core 2 2 2 32) of
          Inl e \<Rightarrow> False
        | Inr s \<Rightarrow> \<not> ROB_empty (ROB s) \<and> ROB_head_index (ROB s) = 0 \<and>
            ready (ROB_get_entry (ROB s) 0) \<and> rob_instr (ROB_get_entry (ROB s) 0) = instr_A \<and>
            length (reg_file s) = 32 \<and> instrs s \<le> fetched_instrs s \<and> rob_count (ROB s) = 2"
    by code_simp
  then obtain s2 where s2: "run demo_cfg (take 11 demo_run) (init_core 2 2 2 32) = Inr s2"
    "\<not> ROB_empty (ROB s2)" "ROB_head_index (ROB s2) = 0"
    "ready (ROB_get_entry (ROB s2) 0)" "rob_instr (ROB_get_entry (ROB s2) 0) = instr_A"
    "length (reg_file s2) = 32" "instrs s2 \<le> fetched_instrs s2" "rob_count (ROB s2) = 2"
    by (cases "run demo_cfg (take 11 demo_run) (init_core 2 2 2 32)") simp_all
  have e: "ROB_empty (ROB (init_core 2 2 2 32))"
    by (simp add: init_core_def empty_ROB_def ROB_empty_def)
  have "getRd instr_A < 32" by (simp add: instr_A_def)
  then obtain s2' where "commit s2 = Inr s2'" "rob_count (ROB s2') = 1"
    "trace s2' = trace s2 @ [Commit instr_A]"
    using commit_noop_or_pop [of s2] s2 by auto
  moreover have "commit s1 = Inr s1"
    using commit_noop_or_pop [of s1] s1 by simp
  moreover have "commit (init_core 2 2 2 32) = Inr (init_core 2 2 2 32)"
    using commit_noop_or_pop [of "init_core 2 2 2 32"] e by blast
  ultimately show ?thesis using s1 s2 by blast
qed

text \<open>
  C9: the commit phase of the out-of-order core writes the result into register 0 when
  the committing instruction names it as destination; the in-order pipeline's
  \<open>regfile_write\<close> leaves the register file as it is for such an instruction.
\<close>

theorem commit_writes_register_zero:
  fixes s :: core
  defines "h \<equiv> ROB_get_entry (ROB s) (ROB_head_index (ROB s))"
  assumes "\<not> ROB_empty (ROB s)" and "ready h" and "use_rd (rob_instr h)"
    and "getRd (rob_instr h) = 0" and "commit s = Inr s'"
  shows "reg_file s' = (reg_file s)[0 := result h] \<and> reg_file s' ! 0 = result h \<and>
         regfile_write (rob_instr h) (result h) (reg_file s) = Inr (reg_file s)"
  using assms(4,5,6) unfolding commit_ready [OF assms(2) assms(3) [unfolded h_def]] h_def
  by (auto simp: bind_error_def regfile_write_def split: if_splits)

theorem commit_writes_register_zero_witness:
  "\<exists>s s'. run demo_cfg x0_run (demo_core 2 2) = Inr s \<and> commit s = Inr s' \<and>
     reg_file s ! 0 = 0 \<and> reg_file s' ! 0 = 5 \<and>
     regfile_write instr_Z 5 (reg_file s) = Inr (reg_file s)"
proof -
  have "case run demo_cfg (x0_run @ [CommitPhase]) (demo_core 2 2) of
          Inl e \<Rightarrow> False | Inr s \<Rightarrow> True"
    by code_simp
  then obtain s s' where r: "run demo_cfg x0_run (demo_core 2 2) = Inr s" "commit s = Inr s'"
    by (auto simp: run_append bind_error_def split: sum.splits)
  have "case run demo_cfg x0_run (demo_core 2 2) of
          Inl e \<Rightarrow> False
        | Inr s \<Rightarrow> \<not> ROB_empty (ROB s) \<and> ROB_head_index (ROB s) = 0 \<and>
            ready (ROB_get_entry (ROB s) 0) \<and> rob_instr (ROB_get_entry (ROB s) 0) = instr_Z \<and>
            result (ROB_get_entry (ROB s) 0) = 5 \<and> reg_file s ! 0 = 0"
    by code_simp
  then have s: "\<not> ROB_empty (ROB s)" "ROB_head_index (ROB s) = 0"
    "ready (ROB_get_entry (ROB s) 0)" "rob_instr (ROB_get_entry (ROB s) 0) = instr_Z"
    "result (ROB_get_entry (ROB s) 0) = 5" "reg_file s ! 0 = 0"
    by (simp_all add: r(1))
  have z: "getRd instr_Z = 0" "use_rd instr_Z" by (simp_all add: instr_Z_def)
  from commit_writes_register_zero [OF s(1) _ _ _ r(2)] s z r show ?thesis by auto
qed

text \<open>
  C7: in every state that a run of the core reaches, the reservation-station entry that
  an issue fills holds, for each source operand the instruction uses, what the three-way
  rule of the spec gives in the state before the issue: the register-file value, resolved
  (index \<open>-1\<close>), without a mapping in the alias table; the mapped slot's result,
  resolved, when that slot is ready; and otherwise a pending operand (index other than
  \<open>-1\<close>) whose index is the reservation-station slot that the reverse producer index
  lists for the mapped slot. An operand that is not used is resolved.
\<close>

theorem issue_operand_resolution:
  assumes "run cfg acts ((init_core rob_n rs_n fu_n regs)\<lparr>reg_file := rf\<rparr>) = Inr s"
    and "issue_queue s = instr # q" and "\<not> RS_full (RS s)" and "\<not> ROB_full (ROB s)"
    and "issue s = Inr s'" and "RS_free_slot (RS s) = Some k"
  shows "valid (RS s' ! k) \<and> rs_instr (RS s' ! k) = instr \<and>
         rob_index (RS s' ! k) = int (rob_tail (ROB s)) \<and>
         (if use_rs1 instr
          then spec_operand_rule s (getRs1 instr) (rs1_index (RS s' ! k)) (rs1_data (RS s' ! k))
          else rs1_index (RS s' ! k) = - 1) \<and>
         (if use_rs2 instr
          then spec_operand_rule s (getRs2 instr) (rs2_index (RS s' ! k)) (rs2_data (RS s' ! k))
          else rs2_index (RS s' ! k) = - 1)"
proof -
  have inv: "tomasulo_inv s" using tomasulo_inv_run [OF tomasulo_inv_init_regs assms(1)] .
  from issue_Inr_new_entry [OF assms(2-6)] obtain d1 i1 d2 i2 where
    o1: "get_operand s (use_rs1 instr) (getRs1 instr) = Inr (d1, i1)" and
    o2: "get_operand s (use_rs2 instr) (getRs2 instr) = Inr (d2, i2)" and
    rs: "RS s' = (RS s)[k := \<lparr>valid = True, running = False,
                           rob_index = int (rob_tail (ROB s)), rs1_index = i1,
                           rs2_index = i2, rs1_data = d1, rs2_data = d2, rs_instr = instr\<rparr>]"
    by blast
  have k: "k < length (RS s)" using RS_free_slot_Some [OF assms(6)] by simp
  have e: "RS s' ! k = \<lparr>valid = True, running = False,
                           rob_index = int (rob_tail (ROB s)), rs1_index = i1,
                           rs2_index = i2, rs1_data = d1, rs2_data = d2, rs_instr = instr\<rparr>"
    using k by (simp add: rs)
  have r1: "if use_rs1 instr then spec_operand_rule s (getRs1 instr) i1 d1 else i1 = - 1"
    using o1 get_operand_rule [OF inv, of "getRs1 instr" d1 i1] by (auto simp: get_operand_unused)
  have r2: "if use_rs2 instr then spec_operand_rule s (getRs2 instr) i2 d2 else i2 = - 1"
    using o2 get_operand_rule [OF inv, of "getRs2 instr" d2 i2] by (auto simp: get_operand_unused)
  show ?thesis using r1 r2 by (simp add: e)
qed

theorem issue_operand_resolution_witness:
  "\<exists>s s' t t'. run demo_cfg raw_pending_run (demo_core 2 2) = Inr s \<and> issue s = Inr s' \<and>
     RAT s 1 = Some 0 \<and> \<not> ready (ROB_get_entry (ROB s) 0) \<and> RST s ! 0 = 0 \<and>
     rs_instr (RS s' ! 1) = instr_E \<and> rs1_index (RS s' ! 1) = 0 \<and>
     rs2_index (RS s' ! 1) = - 1 \<and> rs2_data (RS s' ! 1) = 6 \<and>
     run demo_cfg raw_ready_run (demo_core 2 2) = Inr t \<and> issue t = Inr t' \<and>
     RAT t 1 = Some 0 \<and> ready (ROB_get_entry (ROB t) 0) \<and>
     rs_instr (RS t' ! 0) = instr_E \<and> rs1_index (RS t' ! 0) = - 1 \<and>
     rs1_data (RS t' ! 0) = 5"
proof -
  have "case run demo_cfg (raw_pending_run @ [IssuePhase]) (demo_core 2 2) of
          Inl e \<Rightarrow> False | Inr s \<Rightarrow> True"
    by code_simp
  then obtain s s' where r: "run demo_cfg raw_pending_run (demo_core 2 2) = Inr s"
    "issue s = Inr s'"
    by (auto simp: run_append bind_error_def split: sum.splits)
  have "case run demo_cfg raw_pending_run (demo_core 2 2) of
          Inl e \<Rightarrow> False
        | Inr s \<Rightarrow> issue_queue s = [instr_E] \<and> \<not> RS_full (RS s) \<and> \<not> ROB_full (ROB s) \<and>
            RS_free_slot (RS s) = Some 1 \<and> RAT s 1 = Some 0 \<and> RAT s 6 = None \<and>
            \<not> ready (ROB_get_entry (ROB s) 0) \<and> RST s ! 0 = 0 \<and> reg_file s ! 6 = 6"
    by code_simp
  then have s: "issue_queue s = [instr_E]" "\<not> RS_full (RS s)" "\<not> ROB_full (ROB s)"
    "RS_free_slot (RS s) = Some 1" "RAT s 1 = Some 0" "RAT s 6 = None"
    "\<not> ready (ROB_get_entry (ROB s) 0)" "RST s ! 0 = 0" "reg_file s ! 6 = 6"
    by (simp_all add: r(1))
  have "case run demo_cfg (raw_ready_run @ [IssuePhase]) (demo_core 2 2) of
          Inl e \<Rightarrow> False | Inr s \<Rightarrow> True"
    by code_simp
  then obtain t t' where q: "run demo_cfg raw_ready_run (demo_core 2 2) = Inr t"
    "issue t = Inr t'"
    by (auto simp: run_append bind_error_def split: sum.splits)
  have "case run demo_cfg raw_ready_run (demo_core 2 2) of
          Inl e \<Rightarrow> False
        | Inr s \<Rightarrow> issue_queue s = [instr_E] \<and> \<not> RS_full (RS s) \<and> \<not> ROB_full (ROB s) \<and>
            RS_free_slot (RS s) = Some 0 \<and> RAT s 1 = Some 0 \<and>
            ready (ROB_get_entry (ROB s) 0) \<and> result (ROB_get_entry (ROB s) 0) = 5"
    by code_simp
  then have t: "issue_queue t = [instr_E]" "\<not> RS_full (RS t)" "\<not> ROB_full (ROB t)"
    "RS_free_slot (RS t) = Some 0" "RAT t 1 = Some 0"
    "ready (ROB_get_entry (ROB t) 0)" "result (ROB_get_entry (ROB t) 0) = 5"
    by (simp_all add: q(1))
  have E: "use_rs1 instr_E" "use_rs2 instr_E" "getRs1 instr_E = 1" "getRs2 instr_E = 6"
    by (simp_all add: instr_E_def)
  have "rs_instr (RS s' ! 1) = instr_E \<and> rs1_index (RS s' ! 1) = 0 \<and>
        rs2_index (RS s' ! 1) = - 1 \<and> rs2_data (RS s' ! 1) = 6"
    using issue_operand_resolution [OF r(1) [unfolded demo_core_def] s(1,2,3) r(2) s(4)] s E
    by (simp add: spec_operand_rule_def)
  moreover have "rs_instr (RS t' ! 0) = instr_E \<and> rs1_index (RS t' ! 0) = - 1 \<and>
        rs1_data (RS t' ! 0) = 5"
    using issue_operand_resolution [OF q(1) [unfolded demo_core_def] t(1,2,3) q(2) t(4)] t E
    by (simp add: spec_operand_rule_def)
  ultimately show ?thesis using r q s t by blast
qed



text \<open>
  C4: a reservation-station slot is released only by the writeback of a broadcast that
  names it as its source, after the wake-up: whenever a step of the core turns a valid
  slot \<open>i\<close> into a free one, the step is a writeback, the bus holds a record whose
  source slot is \<open>i\<close>, every other valid entry that was pending on \<open>i\<close> has
  received the broadcast value and is resolved, and no valid entry of the resulting
  stations names \<open>i\<close> as a pending source. In every state that a run from reset
  reaches, a pending operand of a valid entry names a valid slot; so the slot that an
  issue fills, which is a free one, is named by no valid entry.
\<close>

theorem rs_slot_free_only_when_unreferenced:
  assumes "run cfg acts ((init_core rob_n rs_n fu_n regs)\<lparr>reg_file := rf\<rparr>) = Inr s"
    and "step cfg a s = Inr s'"
  shows "(\<forall>i<length (RS s). valid (RS s ! i) \<and> \<not> valid (RS s' ! i) \<longrightarrow>
            a = WritebackPhase \<and>
            (\<exists>d. CDB s = Some d \<and> cdb_rs_index d = int i \<and>
               (\<forall>j<length (RS s). valid (RS s ! j) \<and> j \<noteq> i \<longrightarrow>
                  valid (RS s' ! j) \<and>
                  (rs1_index (RS s ! j) = int i \<longrightarrow>
                     rs1_index (RS s' ! j) = - 1 \<and> rs1_data (RS s' ! j) = cdb_result d) \<and>
                  (rs2_index (RS s ! j) = int i \<longrightarrow>
                     rs2_index (RS s' ! j) = - 1 \<and> rs2_data (RS s' ! j) = cdb_result d)) \<and>
               (\<forall>e\<in>set (RS s'). valid e \<longrightarrow> rs1_index e \<noteq> int i \<and> rs2_index e \<noteq> int i))) \<and>
         (\<forall>k<length (RS s). a = IssuePhase \<and> RS s' ! k \<noteq> RS s ! k \<longrightarrow>
            \<not> valid (RS s ! k) \<and>
            (\<forall>e\<in>set (RS s). valid e \<longrightarrow> rs1_index e \<noteq> int k \<and> rs2_index e \<noteq> int k)) \<and>
         refs_ok (RS s)"
proof (intro conjI allI impI)
  fix i assume "i < length (RS s)" "valid (RS s ! i) \<and> \<not> valid (RS s' ! i)"
  then have r: "a = WritebackPhase \<and>
         (\<exists>d. CDB s = Some d \<and> cdb_rs_index d = int i \<and>
            (\<forall>j<length (RS s). valid (RS s ! j) \<and> j \<noteq> i \<longrightarrow>
               valid (RS s' ! j) \<and>
               (rs1_index (RS s ! j) = int i \<longrightarrow>
                  rs1_index (RS s' ! j) = - 1 \<and> rs1_data (RS s' ! j) = cdb_result d) \<and>
               (rs2_index (RS s ! j) = int i \<longrightarrow>
                  rs2_index (RS s' ! j) = - 1 \<and> rs2_data (RS s' ! j) = cdb_result d)) \<and>
            (\<forall>e\<in>set (RS s'). valid e \<longrightarrow> rs1_index e \<noteq> int i \<and> rs2_index e \<noteq> int i))"
    using released_by_writeback_only [OF assms(2)] by blast
  from r show "a = WritebackPhase" by simp
  from r show "\<exists>d. CDB s = Some d \<and> cdb_rs_index d = int i \<and>
            (\<forall>j<length (RS s). valid (RS s ! j) \<and> j \<noteq> i \<longrightarrow>
               valid (RS s' ! j) \<and>
               (rs1_index (RS s ! j) = int i \<longrightarrow>
                  rs1_index (RS s' ! j) = - 1 \<and> rs1_data (RS s' ! j) = cdb_result d) \<and>
               (rs2_index (RS s ! j) = int i \<longrightarrow>
                  rs2_index (RS s' ! j) = - 1 \<and> rs2_data (RS s' ! j) = cdb_result d)) \<and>
            (\<forall>e\<in>set (RS s'). valid e \<longrightarrow> rs1_index e \<noteq> int i \<and> rs2_index e \<noteq> int i)"
    by simp
next
  have inv: "tomasulo_inv s" by (rule tomasulo_inv_run [OF tomasulo_inv_init_regs assms(1)])
  then show refs: "refs_ok (RS s)" by (simp add: tomasulo_inv_def)
  fix k assume k: "k < length (RS s)" "a = IssuePhase \<and> RS s' ! k \<noteq> RS s ! k"
  then have "issue s = Inr s'" using assms(2) by simp
  from issue_fills_free_slot [OF this k(1)] k(2) show nv: "\<not> valid (RS s ! k)" by simp
  show "\<forall>e\<in>set (RS s). valid e \<longrightarrow> rs1_index e \<noteq> int k \<and> rs2_index e \<noteq> int k"
    using refs_ok_free_slot [OF refs k(1) nv] by blast
qed


theorem rs_slot_free_only_when_unreferenced_witness:
  "\<exists>s s' t t'. run demo_cfg wake_run (demo_core 2 2) = Inr s \<and>
     step demo_cfg WritebackPhase s = Inr s' \<and>
     CDB s = Some \<lparr>cdb_result = 5, cdb_rob_index = 0, cdb_rs_index = 0\<rparr> \<and>
     valid (RS s ! 0) \<and> \<not> valid (RS s' ! 0) \<and> valid (RS s ! 1) \<and> valid (RS s' ! 1) \<and>
     rs1_index (RS s ! 1) = 0 \<and> rs1_index (RS s' ! 1) = - 1 \<and> rs1_data (RS s' ! 1) = 5 \<and>
     refs_ok (RS s) \<and>
     run demo_cfg raw_pending_run (demo_core 2 2) = Inr t \<and>
     step demo_cfg IssuePhase t = Inr t' \<and> valid (RS t ! 0) \<and> \<not> valid (RS t ! 1) \<and>
     valid (RS t' ! 1) \<and> rs1_index (RS t ! 0) \<noteq> 1 \<and> rs2_index (RS t ! 0) \<noteq> 1"
proof -
  have "case run demo_cfg wake_run (demo_core 2 2) of
          Inl e \<Rightarrow> False
        | Inr s \<Rightarrow> length (RS s) = 2 \<and> valid (RS s ! 0) \<and> valid (RS s ! 1) \<and>
            rs1_index (RS s ! 1) = 0 \<and> \<not> valid (RS (writeback s) ! 0) \<and>
            CDB s = Some \<lparr>cdb_result = 5, cdb_rob_index = 0, cdb_rs_index = 0\<rparr>"
    by code_simp
  then obtain s where s: "run demo_cfg wake_run (demo_core 2 2) = Inr s"
    "length (RS s) = 2" "valid (RS s ! 0)" "valid (RS s ! 1)" "rs1_index (RS s ! 1) = 0"
    "\<not> valid (RS (writeback s) ! 0)"
    "CDB s = Some \<lparr>cdb_result = 5, cdb_rob_index = 0, cdb_rs_index = 0\<rparr>"
    by (cases "run demo_cfg wake_run (demo_core 2 2)") simp_all
  have st: "step demo_cfg WritebackPhase s = Inr (writeback s)" by simp
  note a = rs_slot_free_only_when_unreferenced [OF s(1) [unfolded demo_core_def] st]
  have first: "valid (RS (writeback s) ! 1) \<and> rs1_index (RS (writeback s) ! 1) = - 1 \<and>
        rs1_data (RS (writeback s) ! 1) = 5 \<and> refs_ok (RS s)"
    using a [THEN conjunct1, rule_format, of 0] a [THEN conjunct2, THEN conjunct2] s
    by auto
  have "case run demo_cfg (raw_pending_run @ [IssuePhase]) (demo_core 2 2) of
          Inl e \<Rightarrow> False | Inr s \<Rightarrow> valid (RS s ! 1)"
    by code_simp
  then obtain t t' where t: "run demo_cfg raw_pending_run (demo_core 2 2) = Inr t"
    "step demo_cfg IssuePhase t = Inr t'" "valid (RS t' ! 1)"
    by (auto simp: run_append bind_error_def split: sum.splits)
  have "case run demo_cfg raw_pending_run (demo_core 2 2) of
          Inl e \<Rightarrow> False | Inr s \<Rightarrow> length (RS s) = 2 \<and> valid (RS s ! 0) \<and> \<not> valid (RS s ! 1)"
    by code_simp
  then have t2: "length (RS t) = 2" "valid (RS t ! 0)" "\<not> valid (RS t ! 1)"
    by (simp_all add: t(1))
  have ne: "RS t' ! 1 \<noteq> RS t ! 1" using t(3) t2(3) by auto
  have e0: "RS t ! 0 \<in> set (RS t)" using t2(1) by simp
  note b = rs_slot_free_only_when_unreferenced [OF t(1) [unfolded demo_core_def] t(2)]
  have second: "rs1_index (RS t ! 0) \<noteq> 1 \<and> rs2_index (RS t ! 0) \<noteq> 1"
    using b [THEN conjunct2, THEN conjunct1, rule_format, of 1] ne t2 e0 by auto
  show ?thesis using s st first t t2 second by blast
qed

text \<open>
  C3: the bus holds one record or none. In every state that a run of the core reaches,
  an execute that starts with the bus free (as it is after every writeback) loads it
  with the output of the first unit, in scan order, that has completed, and with nothing
  when no unit has completed; every other unit that has completed is left exactly as it
  is, completion flag and output included, the latency advance of a later cycle does not
  change it, and no phase other than execute touches the units. A unit that has completed
  is in fact broadcast: within \<open>waiting_bound\<close> + 1 cycles of the order commit,
  writeback, execute, issue, whatever the front end fetches in them, there is an execute
  after which the bus holds that unit's output.
\<close>

theorem bus_serves_completed_units_in_turn:
  fixes cfg :: config and s :: core
  defines "adv \<equiv> map (FU_execute cfg) (FUs s)"
  assumes "run cfg acts ((init_core rob_n rs_n fu_n regs)\<lparr>reg_file := rf\<rparr>) = Inr s"
  shows "(\<forall>s'. CDB s = None \<and> execute cfg s = Inr s' \<longrightarrow>
            ((\<forall>fu\<in>set adv. \<not> fu_done fu) \<longrightarrow> CDB s' = None) \<and>
            (\<forall>k<length adv. fu_done (adv ! k) \<and> (\<forall>i<k. \<not> fu_done (adv ! i)) \<longrightarrow>
               CDB s' = Some (FU_get_output (adv ! k)) \<and> \<not> fu_done (FUs s' ! k) \<and>
               (\<forall>j<length adv. j \<noteq> k \<and> fu_done (adv ! j) \<longrightarrow>
                  FUs s' ! j = adv ! j \<and> FU_execute cfg (FUs s' ! j) = FUs s' ! j))) \<and>
         (\<forall>j fss s'. j < length (FUs s) \<and> fu_done (FUs s ! j) \<and>
            run cfg (concat (map cycle fss)) s = Inr s' \<and>
            waiting_bound s (nat (fu_rob_index (FUs s ! j))) < length fss \<longrightarrow>
            (\<exists>fss1 fs fss2 t. fss = fss1 @ fs # fss2 \<and>
               run cfg (concat (map cycle fss1) @ map Fetch fs @
                        [CommitPhase, WritebackPhase, ExecutePhase]) s = Inr t \<and>
               CDB t = Some (FU_get_output (FUs s ! j)))) \<and>
         (\<forall>a t t'. a \<noteq> ExecutePhase \<and> step cfg a t = Inr t' \<longrightarrow> FUs t' = FUs t) \<and>
         (\<forall>t. CDB (writeback t) = None)"
proof -
  have inv: "tomasulo_inv s" "stations_ok s" using reachable_invs [OF assms(2)] by simp_all
  have wf: "FUs_wf (FUs s)" using inv(1) by (simp add: tomasulo_inv_def holders_ok_def)
  have A: "((\<forall>fu\<in>set adv. \<not> fu_done fu) \<longrightarrow> CDB s' = None) \<and>
            (\<forall>k<length adv. fu_done (adv ! k) \<and> (\<forall>i<k. \<not> fu_done (adv ! i)) \<longrightarrow>
               CDB s' = Some (FU_get_output (adv ! k)) \<and> \<not> fu_done (FUs s' ! k) \<and>
               (\<forall>j<length adv. j \<noteq> k \<and> fu_done (adv ! j) \<longrightarrow>
                  FUs s' ! j = adv ! j \<and> FU_execute cfg (FUs s' ! j) = FUs s' ! j))"
    if "CDB s = None" "execute cfg s = Inr s'" for s'
    using execute_drains_first_completed [OF that(1) wf that(2)] unfolding adv_def by blast
  have B: "\<exists>fss1 fs fss2 t. fss = fss1 @ fs # fss2 \<and>
               run cfg (concat (map cycle fss1) @ map Fetch fs @
                        [CommitPhase, WritebackPhase, ExecutePhase]) s = Inr t \<and>
               CDB t = Some (FU_get_output (FUs s ! j))"
    if "j < length (FUs s)" "fu_done (FUs s ! j)" "run cfg (concat (map cycle fss)) s = Inr s'"
      "waiting_bound s (nat (fu_rob_index (FUs s ! j))) < length fss" for j fss s'
    by (rule completed_unit_broadcast [OF inv that])
  have C: "FUs t' = FUs t" if "a \<noteq> ExecutePhase" "step cfg a t = Inr t'" for a t t'
    by (rule step_FUs [OF that(2,1)])
  show ?thesis using A B C writeback_CDB by blast
qed


theorem bus_serves_completed_units_in_turn_witness:
  "\<exists>s0 s1. run demo_cfg both_done_run (demo_core 2 2) = Inr s0 \<and> CDB s0 = None \<and>
     fu_done (FU_execute demo_cfg (FUs s0 ! 0)) \<and> fu_done (FU_execute demo_cfg (FUs s0 ! 1)) \<and>
     execute demo_cfg s0 = Inr s1 \<and>
     CDB s1 = Some \<lparr>cdb_result = 5, cdb_rob_index = 0, cdb_rs_index = 0\<rparr> \<and>
     fu_done (FUs s1 ! 1) \<and>
     FU_get_output (FUs s1 ! 1) = \<lparr>cdb_result = 11, cdb_rob_index = 1, cdb_rs_index = 1\<rparr> \<and>
     waiting_bound s1 1 = 3 \<and>
     (\<exists>fss1 fs fss2 t. replicate 4 [] = fss1 @ fs # fss2 \<and>
        run demo_cfg (concat (map cycle fss1) @ map Fetch fs @
                      [CommitPhase, WritebackPhase, ExecutePhase]) s1 = Inr t \<and>
        CDB t = Some \<lparr>cdb_result = 11, cdb_rob_index = 1, cdb_rs_index = 1\<rparr>)"
proof -
  have "case run demo_cfg (both_done_run @ [ExecutePhase] @ concat (map cycle (replicate 4 [])))
               (demo_core 2 2) of
          Inl e \<Rightarrow> False | Inr s \<Rightarrow> True"
    by code_simp
  then obtain s0 s1 s2 where r: "run demo_cfg both_done_run (demo_core 2 2) = Inr s0"
    "execute demo_cfg s0 = Inr s1" "run demo_cfg (concat (map cycle (replicate 4 []))) s1 = Inr s2"
    by (auto simp: run_append bind_error_def split: sum.splits)
  have r1: "run demo_cfg (both_done_run @ [ExecutePhase]) (demo_core 2 2) = Inr s1"
    using run_snoc [OF r(1), of ExecutePhase] r(2) by simp
  have "case run demo_cfg both_done_run (demo_core 2 2) of
          Inl e \<Rightarrow> False
        | Inr s \<Rightarrow> CDB s = None \<and> length (FUs s) = 2 \<and>
            fu_done (FU_execute demo_cfg (FUs s ! 0)) \<and>
            fu_done (FU_execute demo_cfg (FUs s ! 1)) \<and>
            FU_get_output (FU_execute demo_cfg (FUs s ! 0)) =
              \<lparr>cdb_result = 5, cdb_rob_index = 0, cdb_rs_index = 0\<rparr> \<and>
            FU_get_output (FU_execute demo_cfg (FUs s ! 1)) =
              \<lparr>cdb_result = 11, cdb_rob_index = 1, cdb_rs_index = 1\<rparr>"
    by code_simp
  then have s0: "CDB s0 = None" "length (FUs s0) = 2"
    "fu_done (FU_execute demo_cfg (FUs s0 ! 0))" "fu_done (FU_execute demo_cfg (FUs s0 ! 1))"
    "FU_get_output (FU_execute demo_cfg (FUs s0 ! 0)) =
       \<lparr>cdb_result = 5, cdb_rob_index = 0, cdb_rs_index = 0\<rparr>"
    "FU_get_output (FU_execute demo_cfg (FUs s0 ! 1)) =
       \<lparr>cdb_result = 11, cdb_rob_index = 1, cdb_rs_index = 1\<rparr>"
    by (simp_all add: r(1))
  note a = bus_serves_completed_units_in_turn [OF r(1) [unfolded demo_core_def],
      THEN conjunct1, rule_format, of s1]
  have first: "CDB s1 = Some \<lparr>cdb_result = 5, cdb_rob_index = 0, cdb_rs_index = 0\<rparr> \<and>
      FUs s1 ! 1 = FU_execute demo_cfg (FUs s0 ! 1)"
    using a [OF conjI [OF s0(1) r(2)], THEN conjunct2, rule_format, of 0] s0
    by simp
  have "case run demo_cfg (both_done_run @ [ExecutePhase]) (demo_core 2 2) of
          Inl e \<Rightarrow> False
        | Inr s \<Rightarrow> waiting_bound s 1 = 3 \<and> fu_rob_index (FUs s ! 1) = 1 \<and> length (FUs s) = 2"
    by code_simp
  then have s1: "waiting_bound s1 1 = 3" "fu_rob_index (FUs s1 ! 1) = 1" "length (FUs s1) = 2"
    by (simp_all add: r1)
  have d1: "fu_done (FUs s1 ! 1)"
    "FU_get_output (FUs s1 ! 1) = \<lparr>cdb_result = 11, cdb_rob_index = 1, cdb_rs_index = 1\<rparr>"
    using first s0 by simp_all
  note b = bus_serves_completed_units_in_turn [OF r1 [unfolded demo_core_def],
      THEN conjunct2, THEN conjunct1, rule_format, of 1 "replicate 4 []" s2]
  have second: "\<exists>fss1 fs fss2 t. replicate 4 [] = fss1 @ fs # fss2 \<and>
        run demo_cfg (concat (map cycle fss1) @ map Fetch fs @
                      [CommitPhase, WritebackPhase, ExecutePhase]) s1 = Inr t \<and>
        CDB t = Some \<lparr>cdb_result = 11, cdb_rob_index = 1, cdb_rs_index = 1\<rparr>"
    using b s1 d1 r(3) by simp
  show ?thesis using r s0 first d1 s1(1) second by blast
qed

text \<open>
  C10: from the initial \<open>GShare\<close> state (all counters 0) and from the initial
  \<open>GSharePlus\<close> state (all counters 2), with a branch target buffer that is not
  empty, every sequence of \<open>update\<close> calls runs through (every index is within its
  table) and leaves every pattern-history-table counter between 0 and 3.
\<close>

theorem PHT_counters_stay_in_range:
  assumes "BTB_size \<noteq> 0" and "BHR_size < 31"
  shows "(\<exists>g. GShare_updates (GShare_init log2ceil BTB_size BHR_size) us = Some g \<and>
              (\<forall>c\<in>set (g_PHT g). 0 \<le> c \<and> c \<le> 3)) \<and>
         (\<exists>g. GSharePlus_updates (GSharePlus_init log2ceil BTB_size BHR_size) us = Some g \<and>
              (\<forall>c\<in>set (p_PHT g). 0 \<le> c \<and> c \<le> 3))"
  using GShare_updates_inv [OF GShare_init_inv [of BHR_size BTB_size log2ceil] assms(1), of us]
    GSharePlus_updates_inv [OF GSharePlus_init_inv [of BHR_size BTB_size log2ceil] assms(1), of us]
  by (auto simp: GShare_inv_def GSharePlus_inv_def)

theorem PHT_counters_stay_in_range_witness:
  "(\<exists>g. GShare_updates (GShare_init (\<lambda>n. 2) 4 2) (replicate 7 (0x100, 0x200, True)) = Some g \<and>
        g_PHT g = [1, 1, 0, 3] \<and> list_all (\<lambda>c. 0 \<le> c \<and> c \<le> 3) (g_PHT g)) \<and>
   (\<exists>g. GSharePlus_updates (GSharePlus_init (\<lambda>n. 2) 4 2) (replicate 7 (0x100, 0x200, True)) = Some g \<and>
        p_PHT g = [3, 3, 2, 3] \<and> list_all (\<lambda>c. 0 \<le> c \<and> c \<le> 3) (p_PHT g))"
proof -
  have n: "(4 :: u32) \<noteq> 0" "(2 :: nat) < 31" by simp_all
  note t = PHT_counters_stay_in_range [OF n, of "\<lambda>n. 2" "replicate 7 (0x100, 0x200, True)"]
  have 1: "map_option g_PHT (GShare_updates (GShare_init (\<lambda>n. 2) 4 2)
             (replicate 7 (0x100, 0x200, True))) = Some [1, 1, 0, 3]"
    by code_simp
  have 2: "map_option p_PHT (GSharePlus_updates (GSharePlus_init (\<lambda>n. 2) 4 2)
             (replicate 7 (0x100, 0x200, True))) = Some [3, 3, 2, 3]"
    by code_simp
  from t 1 2 show ?thesis by (auto simp: list_all_iff)
qed

end
